theory Spec2Isabelle
  imports Main "HOL-Library.Word"
begin

section \<open>The download stage of the S3 archiving tool (download.go)\<close>

text \<open>
  The Go source is one file: the types \<^verbatim>\<open>DownloadTask\<close> and \<^verbatim>\<open>WorkFile\<close>, the function
  \<^verbatim>\<open>putMemory\<close>, and the function \<^verbatim>\<open>Downloader\<close>, a loop that receives descriptors from a
  channel, reserves slots of a sized wait group and starts one goroutine per descriptor.

  The embedding has two layers. A goroutine body is a program of atomic actions
  (\<open>prog\<close>), written in the order of the source. The whole stage is a state with one
  control point for the \<^verbatim>\<open>Downloader\<close> loop and one program per started goroutine; a
  scheduler action picks who moves next, so every interleaving of the Go program is a
  list of actions. What the absent collaborators return (the remote read, the pool, the
  select statement's choice) is part of the action, so all definitions are functions.
\<close>

subsection \<open>Data\<close>

type_synonym int64 = "64 word"

text \<open>\<^verbatim>\<open>type DownloadTask struct { Size int64; Filename string }\<close>\<close>

record DownloadTask =
  Size :: int64
  Filename :: string

text \<open>
  A Go byte slice: the address of its backing array, its length and its capacity. The
  bytes themselves take no part in any decision of this file and are left out.
\<close>

record slice =
  base :: nat
  len :: nat
  cap :: nat

text \<open>
  \<^verbatim>\<open>type WorkFile struct { Size int64; Filename string; TempFile string; Bytes []byte }\<close>.
  An unset \<^verbatim>\<open>TempFile\<close> is the empty string, an unset \<^verbatim>\<open>Bytes\<close> is the nil slice
  (\<open>None\<close>).
\<close>

record WorkFile =
  wf_Size :: int64
  wf_Filename :: string
  TempFile :: string
  Bytes :: "slice option"

text \<open>
  The three \<^verbatim>\<open>fmt.Errorf\<close> values of the source, kept structured: the arguments of each
  format string rather than the formatted text.
\<close>

datatype cause =
    Error_downloading_to_memory string string
  | Short_write string int64 int64
  | Error_downloading_to_temporary_file string string

text \<open>\<^verbatim>\<open>ErrorEvent{Size, Filename, Err}\<close>, the value sent on \<^verbatim>\<open>fileErrCh\<close>.\<close>

record ErrorEvent =
  ev_Size :: int64
  ev_Filename :: string
  Err :: cause

subsection \<open>The buffer pools and \<^verbatim>\<open>putMemory\<close>\<close>

record pools =
  bufPool32 :: "slice list"
  bufPoolLarge :: "slice list"

text \<open>\<^verbatim>\<open>mem[:cap(mem)]\<close>\<close>

definition full_slice :: "slice \<Rightarrow> slice" where
  "full_slice mem = mem\<lparr>len := cap mem\<rparr>"

text \<open>
  \<^verbatim>\<open>mem[:n]\<close> for an \<^verbatim>\<open>int\<close> n: Go panics unless \<open>0 \<le> n \<le> cap(mem)\<close>.
\<close>

definition slice_to :: "slice \<Rightarrow> int64 \<Rightarrow> slice option" where
  "slice_to mem n =
     (if 0 \<le>s n \<and> sint n \<le> int (cap mem) then Some (mem\<lparr>len := nat (sint n)\<rparr>) else None)"

text \<open>
  \<^verbatim>\<open>
  func putMemory(mem []byte) {
      mem = mem[:cap(mem)]
      if len(mem) <= 32*1024 { bufPool32.Put(mem) } else { bufPoolLarge.Put(mem) }
  }
  \<close>
\<close>

definition putMemory :: "slice \<Rightarrow> pools \<Rightarrow> pools" where
  "putMemory mem0 ps =
     (let mem = full_slice mem0
      in if len mem \<le> 32 * 1024
         then ps\<lparr>bufPool32 := mem # bufPool32 ps\<rparr>
         else ps\<lparr>bufPoolLarge := mem # bufPoolLarge ps\<rparr>)"

text \<open>
  The pools themselves are declared outside this file. What their \<^verbatim>\<open>Get\<close> returns is
  taken from the action: \<open>pick = Some j\<close> hands out the j-th pooled block, anything else
  is a miss, answered by the pool's \<^verbatim>\<open>New\<close> with a block of the capacity configured for
  that pool at a fresh address.
\<close>

datatype pool_id = Pool32 | PoolLarge

text \<open>
  What this file takes from the rest of the package: the value of \<^verbatim>\<open>maxMemObject\<close> and
  the capacities of the blocks the two pools allocate.
\<close>

record config =
  maxMemObject :: int64
  new_cap32 :: nat
  new_capLarge :: nat

text \<open>
  What the collaborators reply to one step: the pool (\<open>pick\<close>, \<open>fresh\<close>),
  \<^verbatim>\<open>downloadObjectToBuffer\<close> (the byte count, a Go \<^verbatim>\<open>int\<close> of 64 bits, and the error)
  and \<^verbatim>\<open>downloadObjectInParts\<close> (the path of the temporary file and the error).
\<close>

record replies =
  pick :: "nat option"
  fresh :: nat
  read_n :: int64
  read_err :: "string option"
  temp_path :: string
  parts_err :: "string option"

definition pool_take :: "nat \<Rightarrow> replies \<Rightarrow> slice list \<Rightarrow> slice \<times> slice list" where
  "pool_take new_cap orc pool =
     (case pick orc of
        Some j \<Rightarrow>
          if j < length pool then (pool ! j, take j pool @ drop (Suc j) pool)
          else (\<lparr>base = fresh orc, len = new_cap, cap = new_cap\<rparr>, pool)
      | None \<Rightarrow> (\<lparr>base = fresh orc, len = new_cap, cap = new_cap\<rparr>, pool))"

definition pool_Get :: "config \<Rightarrow> replies \<Rightarrow> pool_id \<Rightarrow> pools \<Rightarrow> slice \<times> pools" where
  "pool_Get cfg orc pid ps =
     (case pid of
        Pool32 \<Rightarrow>
          (let (mem, rest) = pool_take (new_cap32 cfg) orc (bufPool32 ps)
           in (mem, ps\<lparr>bufPool32 := rest\<rparr>))
      | PoolLarge \<Rightarrow>
          (let (mem, rest) = pool_take (new_capLarge cfg) orc (bufPoolLarge ps)
           in (mem, ps\<lparr>bufPoolLarge := rest\<rparr>)))"

subsection \<open>The goroutine body\<close>

text \<open>
  One constructor per effect of the goroutine, each with the rest of the program. A call
  whose result the body inspects carries a continuation over that result.
\<close>

datatype prog =
    Return
  | Panic
  | Send_done WorkFile prog
  | Send_err ErrorEvent prog
  | Pool_get pool_id "slice \<Rightarrow> prog"
  | Download_to_buffer string slice "int64 \<Rightarrow> string option \<Rightarrow> prog"
  | Download_in_parts string int64 nat "string \<Rightarrow> string option \<Rightarrow> prog"
  | Put_memory slice prog
  | Atomic_add prog

text \<open>
  Lines 59 to 63: \<^verbatim>\<open>parts := 1; if task.Size > 8*1024*1024 { parts = 8 }\<close>.
\<close>

definition part_count :: "DownloadTask \<Rightarrow> nat" where
  "part_count task = (if 8 * 1024 * 1024 <s Size task then 8 else 1)"

text \<open>
  Lines 90 to 114, after the block has been taken from its pool: the read into memory,
  the two failure branches and the success branch.
\<close>

definition in_memory :: "DownloadTask \<Rightarrow> slice \<Rightarrow> prog" where
  "in_memory task mem =
     Download_to_buffer (Filename task) mem (\<lambda>n err.
       case err of
         Some e \<Rightarrow>
           Send_err \<lparr>ev_Size = Size task, ev_Filename = Filename task,
                     Err = Error_downloading_to_memory (Filename task) e\<rparr>
             (Put_memory mem Return)
       | None \<Rightarrow>
           if n \<noteq> Size task then
             Send_err \<lparr>ev_Size = Size task, ev_Filename = Filename task,
                       Err = Short_write (Filename task) (Size task) n\<rparr>
               (Put_memory mem Return)
           else
             (case slice_to mem n of
                None \<Rightarrow> Panic
              | Some bytes \<Rightarrow>
                  Send_done \<lparr>wf_Size = Size task, wf_Filename = Filename task,
                             TempFile = [], Bytes = Some bytes\<rparr>
                    (Atomic_add Return)))"

text \<open>Lines 116 to 128: the transfer through a temporary file.\<close>

definition in_parts :: "DownloadTask \<Rightarrow> nat \<Rightarrow> prog" where
  "in_parts task parts =
     Download_in_parts (Filename task) (Size task) parts (\<lambda>tempFilePath err.
       case err of
         Some e \<Rightarrow>
           Send_err \<lparr>ev_Size = Size task, ev_Filename = Filename task,
                     Err = Error_downloading_to_temporary_file (Filename task) e\<rparr>
             Return
       | None \<Rightarrow>
           Send_done \<lparr>wf_Size = Size task, wf_Filename = Filename task,
                      TempFile = tempFilePath, Bytes = None\<rparr>
             (Atomic_add Return))"

text \<open>
  Lines 75 to 130, the body of the \<^verbatim>\<open>go func(task, parts)\<close> without its deferred loop.
  \<^verbatim>\<open>maxMemObject\<close> is the package variable read from the environment (96 by default).
\<close>

definition download_body :: "int64 \<Rightarrow> DownloadTask \<Rightarrow> nat \<Rightarrow> prog" where
  "download_body maxMem task parts =
     (if Size task = 0 then
        Send_done \<lparr>wf_Size = Size task, wf_Filename = Filename task,
                   TempFile = [], Bytes = None\<rparr>
          (Atomic_add Return)
      else if Size task \<le>s maxMem * 1024 then
        Pool_get (if Size task \<le>s 32 * 1024 then Pool32 else PoolLarge) (in_memory task)
      else in_parts task parts)"

subsection \<open>The state of the stage\<close>

text \<open>
  A started goroutine: its arguments, what is left of its body, and the counter \<open>i\<close> of
  the deferred loop \<^verbatim>\<open>for i := 0; i < parts; i++ { swg.Done() }\<close>, which runs once the body
  has returned or panicked.
\<close>

record worker =
  task :: DownloadTask
  parts :: nat
  code :: prog
  released :: nat

text \<open>
  Where the \<^verbatim>\<open>Downloader\<close> function stands: at the \<^verbatim>\<open>select\<close>, inside the loop of
  \<^verbatim>\<open>swg.Add()\<close> calls for a received descriptor (with its part count and the loop
  counter), in \<^verbatim>\<open>swg.Wait()\<close>, or returned.
\<close>

datatype opc =
    Select
  | Adding DownloadTask nat nat
  | Waiting
  | Exited

text \<open>What happened, in order; the number is the index of the goroutine.\<close>

datatype event =
    CtxCancelled
  | Consumed DownloadTask
  | Reserved
  | Dispatched nat
  | PoolGet nat slice
  | ReadToBuffer nat string
  | ReadInParts nat string int64 nat
  | SentDone nat WorkFile
  | SentErr nat ErrorEvent
  | PoolPut nat slice
  | Incremented nat
  | Released nat
  | ClosedDone

text \<open>
  \<open>tasksCh\<close> holds the descriptors sent and not yet received (pointers to
  \<^verbatim>\<open>DownloadTask\<close> values, taken to be non-nil); \<open>swg_current\<close> and
  \<open>swg_wg\<close> are the two counters of the sized wait group (the occupancy of its slot
  channel, of capacity 16, and its inner wait group); \<open>crashed\<close> is set when a
  panicking goroutine has run its deferred calls, which ends the process.
\<close>

record state =
  opc :: opc
  tasksCh :: "DownloadTask list"
  tasks_closed :: bool
  cancelled :: bool
  done_closed :: bool
  swg_current :: nat
  swg_wg :: nat
  pools :: pools
  DownloadedFiles :: int64
  workers :: "worker list"
  crashed :: bool
  trace :: "event list"

definition initial :: "pools \<Rightarrow> state" where
  "initial ps =
     \<lparr>opc = Select, tasksCh = [], tasks_closed = False, cancelled = False,
      done_closed = False, swg_current = 0, swg_wg = 0, pools = ps,
      DownloadedFiles = 0, workers = [], crashed = False, trace = []\<rparr>"

definition emit :: "event \<Rightarrow> state \<Rightarrow> state" where
  "emit e s = s\<lparr>trace := trace s @ [e]\<rparr>"

definition continue_with :: "nat \<Rightarrow> prog \<Rightarrow> state \<Rightarrow> state" where
  "continue_with k p s = s\<lparr>workers := (workers s)[k := (workers s ! k)\<lparr>code := p\<rparr>]\<rparr>"

subsection \<open>One step of a goroutine\<close>

text \<open>
  \<^verbatim>\<open>sizedwaitgroup.New(16)\<close>. The sized wait group is a library type: a channel of
  16 slots and a wait group. \<^verbatim>\<open>Add()\<close> puts an entry into the channel, blocking while it
  is full, and increments the wait group; \<^verbatim>\<open>Done()\<close> takes an entry out and decrements
  it; \<^verbatim>\<open>Wait()\<close> returns when the wait group is at zero.
\<close>

definition limit :: nat where
  "limit = 16"

text \<open>
  The deferred loop: \<^verbatim>\<open>swg.Done()\<close> takes one entry out of the slot channel and
  decrements the wait group. With the loop finished a returned goroutine is gone (no
  step), a panicking one ends the process.
\<close>

definition deferred_step :: "bool \<Rightarrow> nat \<Rightarrow> state \<Rightarrow> state option" where
  "deferred_step panicking k s =
     (let w = workers s ! k
      in if released w < parts w then
           if swg_current s = 0 then None
           else Some (emit (Released k)
                  (s\<lparr>swg_current := swg_current s - 1, swg_wg := swg_wg s - 1,
                     workers := (workers s)[k := w\<lparr>released := released w + 1\<rparr>]\<rparr>))
         else if panicking then Some (s\<lparr>crashed := True\<rparr>)
         else None)"

text \<open>
  A send on \<^verbatim>\<open>doneCh\<close> panics when the channel is closed. The two download calls are
  outside this file: their results come with the action.
\<close>

definition worker_step :: "config \<Rightarrow> replies \<Rightarrow> nat \<Rightarrow> state \<Rightarrow> state option" where
  "worker_step cfg orc k s =
     (if length (workers s) \<le> k then None
      else case code (workers s ! k) of
        Return \<Rightarrow> deferred_step False k s
      | Panic \<Rightarrow> deferred_step True k s
      | Send_done file p \<Rightarrow>
          if done_closed s then Some (continue_with k Panic s)
          else Some (emit (SentDone k file) (continue_with k p s))
      | Send_err ev p \<Rightarrow> Some (emit (SentErr k ev) (continue_with k p s))
      | Pool_get pid f \<Rightarrow>
          (let (mem, ps) = pool_Get cfg orc pid (pools s)
           in Some (emit (PoolGet k mem) (continue_with k (f mem) (s\<lparr>pools := ps\<rparr>))))
      | Download_to_buffer name mem f \<Rightarrow>
          Some (emit (ReadToBuffer k name)
                 (continue_with k (f (read_n orc) (read_err orc)) s))
      | Download_in_parts name sz n f \<Rightarrow>
          Some (emit (ReadInParts k name sz n)
                 (continue_with k (f (temp_path orc) (parts_err orc)) s))
      | Put_memory mem p \<Rightarrow>
          Some (emit (PoolPut k (full_slice mem))
                 (continue_with k p (s\<lparr>pools := putMemory mem (pools s)\<rparr>)))
      | Atomic_add p \<Rightarrow>
          Some (emit (Incremented k)
                 (continue_with k p (s\<lparr>DownloadedFiles := DownloadedFiles s + 1\<rparr>))))"

subsection \<open>One step of the \<^verbatim>\<open>Downloader\<close> loop\<close>

text \<open>
  \<^verbatim>\<open>
  for {
      select {
      case <-ctx.Done():
          break
      case task, ok := <-tasksCh:
          if !ok { swg.Wait(); return }
          parts := ...
          for i := 0; i < parts; i++ { swg.Add() }
          go func(task, parts) { ... }(task, parts)
      }
  }
  \<close>
  When both cases of the \<^verbatim>\<open>select\<close> are ready Go picks either; the pick is the
  argument \<open>c\<close>. The \<^verbatim>\<open>break\<close> leaves the \<^verbatim>\<open>select\<close> only, so the loop comes back to it.
  \<^verbatim>\<open>swg.Add()\<close> blocks while the slot channel is full. The function's
  \<^verbatim>\<open>defer close(doneCh)\<close> runs at its only \<^verbatim>\<open>return\<close>.
\<close>

datatype select_case = Ctx_done | Task_recv

definition spawn :: "config \<Rightarrow> DownloadTask \<Rightarrow> nat \<Rightarrow> worker" where
  "spawn cfg t n =
     \<lparr>task = t, parts = n, code = download_body (maxMemObject cfg) t n, released = 0\<rparr>"

definition Downloader_step :: "config \<Rightarrow> select_case \<Rightarrow> state \<Rightarrow> state option" where
  "Downloader_step cfg c s =
     (case opc s of
        Select \<Rightarrow>
          (case c of
             Ctx_done \<Rightarrow> if cancelled s then Some s else None
           | Task_recv \<Rightarrow>
               (case tasksCh s of
                  t # ts \<Rightarrow>
                    Some (emit (Consumed t)
                           (s\<lparr>tasksCh := ts, opc := Adding t (part_count t) 0\<rparr>))
                | [] \<Rightarrow> if tasks_closed s then Some (s\<lparr>opc := Waiting\<rparr>) else None))
      | Adding t n i \<Rightarrow>
          if i < n then
            if swg_current s < limit then
              Some (emit Reserved
                     (s\<lparr>swg_current := swg_current s + 1, swg_wg := swg_wg s + 1,
                        opc := Adding t n (i + 1)\<rparr>))
            else None
          else
            Some (emit (Dispatched (length (workers s)))
                   (s\<lparr>workers := workers s @ [spawn cfg t n], opc := Select\<rparr>))
      | Waiting \<Rightarrow>
          if swg_wg s = 0 then Some (emit ClosedDone (s\<lparr>opc := Exited, done_closed := True\<rparr>))
          else None
      | Exited \<Rightarrow> None)"

subsection \<open>The environment and the scheduler\<close>

text \<open>
  The producer sends a descriptor or closes the input channel (once, and sends nothing
  after it); somebody cancels the context.
\<close>

datatype env_action = Produce DownloadTask | Close_tasks | Cancel

definition env_step :: "env_action \<Rightarrow> state \<Rightarrow> state option" where
  "env_step a s =
     (case a of
        Produce t \<Rightarrow> if tasks_closed s then None else Some (s\<lparr>tasksCh := tasksCh s @ [t]\<rparr>)
      | Close_tasks \<Rightarrow> if tasks_closed s then None else Some (s\<lparr>tasks_closed := True\<rparr>)
      | Cancel \<Rightarrow> Some (emit CtxCancelled (s\<lparr>cancelled := True\<rparr>)))"

datatype action =
    Env env_action
  | Downloader select_case
  | Worker nat replies

definition next_state :: "config \<Rightarrow> action \<Rightarrow> state \<Rightarrow> state option" where
  "next_state cfg a s =
     (if crashed s then None
      else case a of
        Env e \<Rightarrow> env_step e s
      | Downloader c \<Rightarrow> Downloader_step cfg c s
      | Worker k orc \<Rightarrow> worker_step cfg orc k s)"

fun exec :: "config \<Rightarrow> action list \<Rightarrow> state \<Rightarrow> state option" where
  "exec cfg [] s = Some s"
| "exec cfg (a # as) s =
     (case next_state cfg a s of None \<Rightarrow> None | Some s' \<Rightarrow> exec cfg as s')"

text \<open>The states the stage can be in: those some schedule reaches from the start.\<close>

definition reachable :: "config \<Rightarrow> pools \<Rightarrow> state \<Rightarrow> bool" where
  "reachable cfg ps s = (\<exists>as. exec cfg as (initial ps) = Some s)"

section \<open>Notions used in the statements\<close>

subsection \<open>Slots\<close>

text \<open>
  The slots held at one moment: per goroutine the part count less what its deferred loop
  has given back, and what the loop of \<^verbatim>\<open>swg.Add()\<close> calls has taken so far for the
  descriptor being admitted.
\<close>

fun reserving :: "opc \<Rightarrow> nat" where
  "reserving (Adding t n i) = i"
| "reserving Select = 0"
| "reserving Waiting = 0"
| "reserving Exited = 0"

definition units :: "worker list \<Rightarrow> nat" where
  "units ws = sum_list (map (\<lambda>w. parts w - released w) ws)"

definition active_units :: "state \<Rightarrow> nat" where
  "active_units s = units (workers s) + reserving (opc s)"

subsection \<open>Events of one goroutine\<close>

text \<open>The events a goroutine body leaves in the trace, with the goroutine's index.\<close>

fun body_event :: "event \<Rightarrow> nat option" where
  "body_event (PoolGet k m) = Some k"
| "body_event (ReadToBuffer k nm) = Some k"
| "body_event (ReadInParts k nm sz n) = Some k"
| "body_event (SentDone k f) = Some k"
| "body_event (SentErr k ev) = Some k"
| "body_event (PoolPut k m) = Some k"
| "body_event (Incremented k) = Some k"
| "body_event CtxCancelled = None"
| "body_event (Consumed t) = None"
| "body_event Reserved = None"
| "body_event (Dispatched k) = None"
| "body_event (Released k) = None"
| "body_event ClosedDone = None"

definition worker_events :: "nat \<Rightarrow> event list \<Rightarrow> event list" where
  "worker_events k tr = filter (\<lambda>e. body_event e = Some k) tr"

text \<open>
  The outcomes of goroutine k in a trace: its sends on \<open>doneCh\<close> and on \<open>fileErrCh\<close>.
\<close>

fun is_outcome :: "event \<Rightarrow> bool" where
  "is_outcome (SentDone k f) = True"
| "is_outcome (SentErr k ev) = True"
| "is_outcome e = False"

definition outcomes :: "nat \<Rightarrow> event list \<Rightarrow> event list" where
  "outcomes k tr = filter is_outcome (worker_events k tr)"

text \<open>An outcome is about descriptor t when it carries its size and its name.\<close>

fun about :: "DownloadTask \<Rightarrow> event \<Rightarrow> bool" where
  "about t (SentDone k f) = (wf_Size f = Size t \<and> wf_Filename f = Filename t)"
| "about t (SentErr k ev) = (ev_Size ev = Size t \<and> ev_Filename ev = Filename t)"
| "about t e = True"

text \<open>The increments of the counter \<^verbatim>\<open>DownloadedFiles\<close> in a trace.\<close>

fun is_increment :: "event \<Rightarrow> bool" where
  "is_increment (Incremented k) = True"
| "is_increment e = False"

text \<open>The releases of slots in a trace.\<close>

fun is_release :: "event \<Rightarrow> bool" where
  "is_release (Released k) = True"
| "is_release e = False"

subsection \<open>Events of the loop\<close>

text \<open>
  What the loop itself leaves in the trace: per started goroutine the receipt of its
  descriptor, one \<open>Reserved\<close> per part and the start; and for the descriptor being
  admitted, its receipt and the reservations made so far.
\<close>

fun loop_event :: "event \<Rightarrow> bool" where
  "loop_event (Consumed t) = True"
| "loop_event Reserved = True"
| "loop_event (Dispatched k) = True"
| "loop_event e = False"


definition admission :: "nat \<Rightarrow> worker \<Rightarrow> event list" where
  "admission k w = Consumed (task w) # replicate (parts w) Reserved @ [Dispatched k]"

fun admitting :: "opc \<Rightarrow> event list" where
  "admitting (Adding t n i) = Consumed t # replicate i Reserved"
| "admitting Select = []"
| "admitting Waiting = []"
| "admitting Exited = []"

definition admissions :: "worker list \<Rightarrow> event list" where
  "admissions ws = concat (map (\<lambda>k. admission k (ws ! k)) [0..<length ws])"

subsection \<open>Pools and the failed in-memory transfer\<close>

text \<open>
  The pools keep to their classes when what \<^verbatim>\<open>New\<close> allocates does: blocks of at most
  32 KiB in \<open>bufPool32\<close>, larger ones in \<open>bufPoolLarge\<close>.
\<close>

definition classed :: "config \<Rightarrow> pools \<Rightarrow> bool" where
  "classed cfg ps \<longleftrightarrow>
     new_cap32 cfg \<le> 32 * 1024 \<and> 32 * 1024 < new_capLarge cfg \<and>
     (\<forall>b \<in> set (bufPool32 ps). cap b \<le> 32 * 1024) \<and>
     (\<forall>b \<in> set (bufPoolLarge ps). 32 * 1024 < cap b)"

text \<open>
  The state after goroutine k has failed on the in-memory path with block \<open>mem\<close>, the
  pools being \<open>ps\<close> once the block was taken: the goroutine has left its four events, its
  body has returned, the block has been put back; nothing else has changed.
\<close>

definition failed_in_memory ::
  "nat \<Rightarrow> DownloadTask \<Rightarrow> slice \<Rightarrow> pools \<Rightarrow> cause \<Rightarrow> state \<Rightarrow> state" where
  "failed_in_memory k t mem ps c s =
     s\<lparr>pools := putMemory mem ps,
       workers := (workers s)[k := (workers s ! k)\<lparr>code := Return\<rparr>],
       trace := trace s @
         [PoolGet k mem, ReadToBuffer k (Filename t),
          SentErr k \<lparr>ev_Size = Size t, ev_Filename = Filename t, Err = c\<rparr>,
          PoolPut k (full_slice mem)]\<rparr>"

subsection \<open>Honest reads and well-formed blocks\<close>





subsection \<open>Concrete inputs\<close>

text \<open>
  The default configuration: \<^verbatim>\<open>MAX_IN_MEM\<close> unset gives 96; the pools' \<^verbatim>\<open>New\<close> functions
  are taken to allocate 32 KiB and 96 KiB blocks.
\<close>

definition default_config :: config where
  "default_config = \<lparr>maxMemObject = 96, new_cap32 = 32 * 1024, new_capLarge = 96 * 1024\<rparr>"

definition empty_pools :: pools where
  "empty_pools = \<lparr>bufPool32 = [], bufPoolLarge = []\<rparr>"

text \<open>
  Two blocks, both shorter than their capacity.
\<close>

definition small_block :: slice where
  "small_block = \<lparr>base = 4096, len = 1000, cap = 32 * 1024\<rparr>"

definition large_block :: slice where
  "large_block = \<lparr>base = 65536, len = 10, cap = 96 * 1024\<rparr>"

text \<open>
  Replies: a pool miss, a read of 0 bytes without error, a temporary file. The variants
  are a read that fails and a read that stops after 499 bytes.
\<close>

definition no_replies :: replies where
  "no_replies = \<lparr>pick = None, fresh = 4096, read_n = 0, read_err = None,
                  temp_path = ''/tmp/part'', parts_err = None\<rparr>"


definition short_read :: replies where
  "short_read = no_replies\<lparr>read_n := 499\<rparr>"

text \<open>
  An empty object and a 20 MiB object.
\<close>

definition empty_object :: DownloadTask where
  "empty_object = \<lparr>Size = 0, Filename = ''a''\<rparr>"

definition big_object :: DownloadTask where
  "big_object = \<lparr>Size = 20 * 1024 * 1024, Filename = ''big''\<rparr>"

text \<open>
  A 1 MiB object: above the default threshold of 96 KiB, below 8 MiB.
\<close>

definition one_mib_object :: DownloadTask where
  "one_mib_object = \<lparr>Size = 1024 * 1024, Filename = ''k''\<rparr>"

text \<open>
  A 500-byte object, for the in-memory path.
\<close>

definition failing_object :: DownloadTask where
  "failing_object = \<lparr>Size = 500, Filename = ''c''\<rparr>"

text \<open>The state a schedule leads to under the default configuration.\<close>

definition after :: "action list \<Rightarrow> state" where
  "after as = the (exec default_config as (initial empty_pools))"

text \<open>
  The empty object from its arrival to the end of its goroutine: received, one slot
  reserved, started, sent, counted, slot released.
\<close>

definition empty_object_run :: "action list" where
  "empty_object_run =
     [Env (Produce empty_object), Downloader Task_recv, Downloader Task_recv,
      Downloader Task_recv, Worker 0 no_replies, Worker 0 no_replies, Worker 0 no_replies]"



text \<open>
  The 500-byte object just started.
\<close>

definition failing_object_started :: "action list" where
  "failing_object_started =
     [Env (Produce failing_object), Downloader Task_recv, Downloader Task_recv,
      Downloader Task_recv]"

text \<open>The 20 MiB object from its arrival to the start of its goroutine.\<close>

definition big_object_admitted :: "action list" where
  "big_object_admitted =
     [Env (Produce big_object), Downloader Task_recv,
      Downloader Task_recv, Downloader Task_recv, Downloader Task_recv,
      Downloader Task_recv, Downloader Task_recv, Downloader Task_recv,
      Downloader Task_recv, Downloader Task_recv, Downloader Task_recv]"

text \<open>
  The 1 MiB object: its arrival, its admission and its read; then the rest of its
  goroutine's body.
\<close>

definition one_mib_read :: "action list" where
  "one_mib_read =
     [Env (Produce one_mib_object), Downloader Task_recv, Downloader Task_recv,
      Downloader Task_recv, Worker 0 no_replies]"

definition one_mib_run :: "action list" where
  "one_mib_run = one_mib_read @ [Worker 0 no_replies, Worker 0 no_replies]"

text \<open>
  The context is cancelled before a descriptor arrives; the loop takes the
  \<^verbatim>\<open>ctx.Done()\<close> case once, comes back to the \<^verbatim>\<open>select\<close>, and takes the descriptor.
\<close>

definition admitted_after_cancel :: "action list" where
  "admitted_after_cancel =
     [Env Cancel, Env (Produce empty_object), Downloader Ctx_done,
      Downloader Task_recv, Downloader Task_recv, Downloader Task_recv]"

text \<open>
  Two 20 MiB objects started, which takes all 16 slots, and the empty object received
  behind them.
\<close>

definition saturated_run :: "action list" where
  "saturated_run =
     [Env (Produce big_object), Env (Produce big_object), Env (Produce empty_object),
      Downloader Task_recv,
      Downloader Task_recv, Downloader Task_recv, Downloader Task_recv,
      Downloader Task_recv, Downloader Task_recv, Downloader Task_recv,
      Downloader Task_recv, Downloader Task_recv, Downloader Task_recv,
      Downloader Task_recv,
      Downloader Task_recv, Downloader Task_recv, Downloader Task_recv,
      Downloader Task_recv, Downloader Task_recv, Downloader Task_recv,
      Downloader Task_recv, Downloader Task_recv, Downloader Task_recv,
      Downloader Task_recv]"

text \<open>
  A panic, for the sake of the deferred loop: pools that allocate blocks of 16 bytes, and
  a read that claims the declared 500 bytes all the same, so that the slice expression of
  line 114 is out of range. The goroutine panics and its deferred loop gives the slot
  back.
\<close>

definition tiny_blocks :: config where
  "tiny_blocks = default_config\<lparr>new_cap32 := 16\<rparr>"

definition full_read :: replies where
  "full_read = no_replies\<lparr>read_n := 500\<rparr>"

definition panicking_run :: "action list" where
  "panicking_run =
     [Env (Produce failing_object), Downloader Task_recv, Downloader Task_recv,
      Downloader Task_recv, Worker 0 no_replies, Worker 0 full_read, Worker 0 no_replies]"

definition panicked :: state where
  "panicked = the (exec tiny_blocks panicking_run (initial empty_pools))"

text \<open>
  The 20 MiB object just received; then with its body returned (read in parts, sent,
  counted); then with its deferred loop finished, eight releases later.
\<close>

definition big_object_received :: "action list" where
  "big_object_received = [Env (Produce big_object), Downloader Task_recv]"

definition big_object_returned :: "action list" where
  "big_object_returned =
     big_object_admitted @ [Worker 0 no_replies, Worker 0 no_replies, Worker 0 no_replies]"

definition big_object_run :: "action list" where
  "big_object_run =
     big_object_returned @
     [Worker 0 no_replies, Worker 0 no_replies, Worker 0 no_replies, Worker 0 no_replies,
      Worker 0 no_replies, Worker 0 no_replies, Worker 0 no_replies, Worker 0 no_replies]"


section \<open>Invariants\<close>

text \<open>
  One effect of a goroutine body seen from outside: the program before, the event it
  leaves in the trace, the program after.
\<close>

inductive move :: "nat \<Rightarrow> prog \<Rightarrow> event \<Rightarrow> prog \<Rightarrow> bool" for k where
  send_done: "move k (Send_done f q) (SentDone k f) q"
| send_err: "move k (Send_err ev q) (SentErr k ev) q"
| pool_get: "move k (Pool_get pid g) (PoolGet k mem) (g mem)"
| read_buffer: "move k (Download_to_buffer nm mem g) (ReadToBuffer k nm) (g n e)"
| read_parts: "move k (Download_in_parts nm sz n g) (ReadInParts k nm sz n) (g path e)"
| put_memory: "move k (Put_memory mem q) (PoolPut k (full_slice mem)) q"
| atomic_add: "move k (Atomic_add q) (Incremented k) q"

text \<open>
  The traces a program can leave on its way to a later program:
  \<open>follows k p evs q\<close> says that goroutine k, started with body p, has left the events
  evs and has q still to run.
\<close>

inductive follows :: "nat \<Rightarrow> prog \<Rightarrow> event list \<Rightarrow> prog \<Rightarrow> bool" for k p where
  start: "follows k p [] p"
| moved: "follows k p evs q \<Longrightarrow> move k q e r \<Longrightarrow> follows k p (evs @ [e]) r"

text \<open>
  \<open>resolves t p n\<close>: whatever the collaborators reply, program p sends exactly n more
  outcomes before it returns, each about t, and it can panic only while one is still to
  be sent.
\<close>

primrec resolves :: "DownloadTask \<Rightarrow> prog \<Rightarrow> nat \<Rightarrow> bool" where
  "resolves t Return n = (n = 0)"
| "resolves t Panic n = (n = 1)"
| "resolves t (Send_done f q) n =
     (n = 1 \<and> wf_Size f = Size t \<and> wf_Filename f = Filename t \<and> resolves t q 0)"
| "resolves t (Send_err ev q) n =
     (n = 1 \<and> ev_Size ev = Size t \<and> ev_Filename ev = Filename t \<and> resolves t q 0)"
| "resolves t (Pool_get pid g) n = (\<forall>mem. resolves t (g mem) n)"
| "resolves t (Download_to_buffer nm mem g) n = (\<forall>x e. resolves t (g x e) n)"
| "resolves t (Download_in_parts nm sz m g) n = (\<forall>x e. resolves t (g x e) n)"
| "resolves t (Put_memory mem q) n = resolves t q n"
| "resolves t (Atomic_add q) n = resolves t q n"

definition inv_units :: "state \<Rightarrow> bool" where
  "inv_units s \<longleftrightarrow>
     swg_current s = active_units s \<and> swg_wg s = swg_current s \<and> swg_current s \<le> limit \<and>
     (\<forall>k < length (workers s). released (workers s ! k) \<le> parts (workers s ! k) \<and>
          parts (workers s ! k) = part_count (task (workers s ! k))) \<and>
     (\<forall>t n i. opc s = Adding t n i \<longrightarrow> i \<le> n \<and> n = part_count t)"

text \<open>
  The deferred loop of goroutine k has run \<open>released\<close> times, each time leaving
  \<open>Released k\<close>, and it runs only once the body has returned or panicked.
\<close>

definition inv_release :: "state \<Rightarrow> bool" where
  "inv_release s \<longleftrightarrow>
     (\<forall>k. count_list (trace s) (Released k) =
          (if k < length (workers s) then released (workers s ! k) else 0)) \<and>
     (\<forall>k < length (workers s). 0 < released (workers s ! k) \<longrightarrow>
          code (workers s ! k) = Return \<or> code (workers s ! k) = Panic)"

text \<open>
  The closing of \<open>doneCh\<close>: it happens in the step from \<open>Waiting\<close> to \<open>Exited\<close> and
  nowhere else, with the input closed and drained and the wait group at zero, and what the
  trace holds after \<open>ClosedDone\<close> is neither a send on \<open>doneCh\<close> nor a second closing.
\<close>

definition quiet_after_close :: "event list \<Rightarrow> bool" where
  "quiet_after_close tr \<longleftrightarrow>
     (\<forall>pre post. tr = pre @ ClosedDone # post \<longrightarrow>
        (\<forall>x \<in> set post. x \<noteq> ClosedDone \<and> (\<forall>k f. x \<noteq> SentDone k f)))"

definition inv_close :: "state \<Rightarrow> bool" where
  "inv_close s \<longleftrightarrow>
     (done_closed s \<longleftrightarrow> opc s = Exited) \<and>
     (done_closed s \<longleftrightarrow> ClosedDone \<in> set (trace s)) \<and>
     (opc s = Waiting \<or> opc s = Exited \<longrightarrow> tasksCh s = [] \<and> tasks_closed s) \<and>
     (done_closed s \<longrightarrow> swg_wg s = 0) \<and>
     quiet_after_close (trace s)"

definition inv_body :: "config \<Rightarrow> state \<Rightarrow> bool" where
  "inv_body cfg s \<longleftrightarrow>
     (\<forall>k < length (workers s).
        follows k (download_body (maxMemObject cfg) (task (workers s ! k)) (parts (workers s ! k)))
          (worker_events k (trace s)) (code (workers s ! k))) \<and>
     (\<forall>e \<in> set (trace s). \<forall>k. body_event e = Some k \<longrightarrow> k < length (workers s))"

definition inv_loop :: "state \<Rightarrow> bool" where
  "inv_loop s \<longleftrightarrow>
     filter loop_event (trace s) = admissions (workers s) @ admitting (opc s)"

definition inv_counter :: "state \<Rightarrow> bool" where
  "inv_counter s \<longleftrightarrow>
     DownloadedFiles s = of_nat (length (filter is_increment (trace s)))"

text \<open>Every \<open>Reserved\<close> in the trace is a slot taken: still taken, or released since.\<close>

definition inv_reserved :: "state \<Rightarrow> bool" where
  "inv_reserved s \<longleftrightarrow>
     count_list (trace s) Reserved = swg_current s + length (filter is_release (trace s))"

text \<open>
  \<open>returns_within p n\<close>: with well-formed blocks and honest reads, program p returns
  after at most n effects and does not panic.
\<close>

primrec returns_within :: "prog \<Rightarrow> nat \<Rightarrow> bool" where
  "returns_within Return n = True"
| "returns_within Panic n = False"
| "returns_within (Send_done f q) n = (0 < n \<and> returns_within q (n - 1))"
| "returns_within (Send_err ev q) n = (0 < n \<and> returns_within q (n - 1))"
| "returns_within (Pool_get pid g) n =
     (0 < n \<and> (\<forall>mem. len mem \<le> cap mem \<longrightarrow> returns_within (g mem) (n - 1)))"
| "returns_within (Download_to_buffer nm mem g) n =
     (0 < n \<and> (\<forall>x e. 0 \<le>s x \<and> sint x \<le> int (len mem) \<longrightarrow> returns_within (g x e) (n - 1)))"
| "returns_within (Download_in_parts nm sz m g) n =
     (0 < n \<and> (\<forall>x e. returns_within (g x e) (n - 1)))"
| "returns_within (Put_memory mem q) n = (0 < n \<and> returns_within q (n - 1))"
| "returns_within (Atomic_add q) n = (0 < n \<and> returns_within q (n - 1))"


section \<open>Proofs of the invariants\<close>

subsection \<open>Schedules and single steps\<close>

lemma exec_append:
  "exec cfg (as @ bs) s = (case exec cfg as s of None \<Rightarrow> None | Some s' \<Rightarrow> exec cfg bs s')"
  by (induction as arbitrary: s) (auto split: option.splits)

lemma reachable_induct [consumes 1, case_names init step]:
  assumes r: "reachable cfg ps s"
    and i: "P (initial ps)"
    and st: "\<And>s a s'. reachable cfg ps s \<Longrightarrow> P s \<Longrightarrow> next_state cfg a s = Some s' \<Longrightarrow> P s'"
  shows "P s"
proof -
  from r obtain as where "exec cfg as (initial ps) = Some s"
    by (auto simp: reachable_def)
  then show ?thesis
  proof (induction as arbitrary: s rule: rev_induct)
    case Nil
    then show ?case using i by simp
  next
    case (snoc a as)
    then obtain m where m: "exec cfg as (initial ps) = Some m" and n: "next_state cfg a m = Some s"
      by (auto simp: exec_append split: option.splits)
    have "reachable cfg ps m" using m by (auto simp: reachable_def)
    then show ?case using snoc.IH [OF m] n st by blast
  qed
qed

lemma worker_stepE [consumes 1, case_names body closed_send release crash]:
  assumes "worker_step cfg orc k s = Some s'"
  obtains
    (body) e p ps d where "k < length (workers s)" "move k (code (workers s ! k)) e p"
      "\<forall>f q. code (workers s ! k) = Send_done f q \<longrightarrow> \<not> done_closed s"
      "s' = s\<lparr>pools := ps, DownloadedFiles := d,
              workers := (workers s)[k := (workers s ! k)\<lparr>code := p\<rparr>],
              trace := trace s @ [e]\<rparr>"
  | (closed_send) f q where "k < length (workers s)" "code (workers s ! k) = Send_done f q"
      "done_closed s"
      "s' = s\<lparr>workers := (workers s)[k := (workers s ! k)\<lparr>code := Panic\<rparr>]\<rparr>"
  | (release) "k < length (workers s)"
      "code (workers s ! k) = Return \<or> code (workers s ! k) = Panic"
      "released (workers s ! k) < parts (workers s ! k)" "0 < swg_current s"
      "s' = s\<lparr>swg_current := swg_current s - 1, swg_wg := swg_wg s - 1,
              workers := (workers s)[k := (workers s ! k)\<lparr>released := released (workers s ! k) + 1\<rparr>],
              trace := trace s @ [Released k]\<rparr>"
  | (crash) "k < length (workers s)" "code (workers s ! k) = Panic"
      "\<not> released (workers s ! k) < parts (workers s ! k)" "s' = s\<lparr>crashed := True\<rparr>"
proof -
  from assms have k: "k < length (workers s)"
    by (simp add: worker_step_def split: if_splits)
  show thesis
  proof (cases "code (workers s ! k)")
    case Return
    with assms k show ?thesis
      by (intro release) (auto simp: worker_step_def deferred_step_def emit_def Let_def split: if_splits)
  next
    case Panic
    show ?thesis
    proof (cases "released (workers s ! k) < parts (workers s ! k)")
      case True
      with assms k Panic show ?thesis
        by (intro release) (auto simp: worker_step_def deferred_step_def emit_def Let_def split: if_splits)
    next
      case False
      with assms k Panic show ?thesis
        by (intro crash) (auto simp: worker_step_def deferred_step_def emit_def Let_def split: if_splits)
    qed
  next
    case (Send_done f q)
    show ?thesis
    proof (cases "done_closed s")
      case True
      with assms k Send_done show ?thesis
        by (intro closed_send [where f = f and q = q]) (auto simp: worker_step_def continue_with_def)
    next
      case False
      with assms k Send_done show ?thesis
        by (intro body [where e = "SentDone k f" and p = q and ps = "pools s" and d = "DownloadedFiles s"])
           (auto simp: worker_step_def continue_with_def emit_def intro: move.intros)
    qed
  next
    case (Send_err ev q)
    with assms k show ?thesis
      by (intro body [where e = "SentErr k ev" and p = q and ps = "pools s" and d = "DownloadedFiles s"])
         (auto simp: worker_step_def continue_with_def emit_def intro: move.intros)
  next
    case (Pool_get pid g)
    with assms k show ?thesis
      by (intro body [where e = "PoolGet k (fst (pool_Get cfg orc pid (pools s)))"
             and p = "g (fst (pool_Get cfg orc pid (pools s)))"
             and ps = "snd (pool_Get cfg orc pid (pools s))" and d = "DownloadedFiles s"])
         (auto simp: worker_step_def continue_with_def emit_def intro: move.intros split: prod.splits)
  next
    case (Download_to_buffer nm mem g)
    with assms k show ?thesis
      by (intro body [where e = "ReadToBuffer k nm" and p = "g (read_n orc) (read_err orc)" and ps = "pools s" and d = "DownloadedFiles s"])
         (auto simp: worker_step_def continue_with_def emit_def intro: move.intros)
  next
    case (Download_in_parts nm sz n g)
    with assms k show ?thesis
      by (intro body [where e = "ReadInParts k nm sz n" and p = "g (temp_path orc) (parts_err orc)" and ps = "pools s" and d = "DownloadedFiles s"])
         (auto simp: worker_step_def continue_with_def emit_def intro: move.intros)
  next
    case (Put_memory mem q)
    with assms k show ?thesis
      by (intro body [where e = "PoolPut k (full_slice mem)" and p = q and ps = "putMemory mem (pools s)" and d = "DownloadedFiles s"])
         (auto simp: worker_step_def continue_with_def emit_def intro: move.intros)
  next
    case (Atomic_add q)
    with assms k show ?thesis
      by (intro body [where e = "Incremented k" and p = q and ps = "pools s" and d = "DownloadedFiles s + 1"])
         (auto simp: worker_step_def continue_with_def emit_def intro: move.intros)
  qed
qed

lemma Downloader_stepE [consumes 1, case_names ctx_done recv closed add go close]:
  assumes "Downloader_step cfg c s = Some s'"
  obtains
    (ctx_done) "opc s = Select" "cancelled s" "s' = s"
  | (recv) t ts where "opc s = Select" "tasksCh s = t # ts"
      "s' = s\<lparr>opc := Adding t (part_count t) 0, tasksCh := ts, trace := trace s @ [Consumed t]\<rparr>"
  | (closed) "opc s = Select" "tasksCh s = []" "tasks_closed s" "s' = s\<lparr>opc := Waiting\<rparr>"
  | (add) t n i where "opc s = Adding t n i" "i < n" "swg_current s < limit"
      "s' = s\<lparr>opc := Adding t n (i + 1), swg_current := swg_current s + 1, swg_wg := swg_wg s + 1,
              trace := trace s @ [Reserved]\<rparr>"
  | (go) t n i where "opc s = Adding t n i" "\<not> i < n"
      "s' = s\<lparr>opc := Select, workers := workers s @ [spawn cfg t n],
              trace := trace s @ [Dispatched (length (workers s))]\<rparr>"
  | (close) "opc s = Waiting" "swg_wg s = 0"
      "s' = s\<lparr>opc := Exited, done_closed := True, trace := trace s @ [ClosedDone]\<rparr>"
proof (cases "opc s")
  case Select
  show ?thesis
  proof (cases c)
    case Ctx_done
    with assms Select show ?thesis
      by (intro ctx_done) (auto simp: Downloader_step_def split: if_splits)
  next
    case Task_recv
    show ?thesis
    proof (cases "tasksCh s")
      case Nil
      with assms Select Task_recv show ?thesis
        by (intro closed) (auto simp: Downloader_step_def split: if_splits)
    next
      case (Cons t ts)
      with assms Select Task_recv show ?thesis
        by (intro recv [where t = t and ts = ts]) (auto simp: Downloader_step_def emit_def)
    qed
  qed
next
  case (Adding t n i)
  show ?thesis
  proof (cases "i < n")
    case True
    with assms Adding show ?thesis
      by (intro add [where t = t and n = n and i = i]) (auto simp: Downloader_step_def emit_def split: if_splits)
  next
    case False
    with assms Adding show ?thesis
      by (intro go [where t = t and n = n and i = i]) (auto simp: Downloader_step_def emit_def)
  qed
next
  case Waiting
  with assms show ?thesis
    by (intro close) (auto simp: Downloader_step_def emit_def split: if_splits)
next
  case Exited
  with assms show ?thesis by (simp add: Downloader_step_def)
qed

lemma move_body_event: "move k p e q \<Longrightarrow> body_event e = Some k"
  by (induction rule: move.induct) simp_all

lemma move_not_terminal: "move k p e q \<Longrightarrow> p \<noteq> Return \<and> p \<noteq> Panic"
  by (induction rule: move.induct) simp_all

lemma move_not_released: "move k p e q \<Longrightarrow> e \<noteq> Released j"
  by (induction rule: move.induct) simp_all

lemma move_sent_done: "move k p e q \<Longrightarrow> e = SentDone j f \<Longrightarrow> \<exists>q'. p = Send_done f q'"
  by (induction rule: move.induct) simp_all

lemma move_not_closed_done: "move k p e q \<Longrightarrow> e \<noteq> ClosedDone"
  by (induction rule: move.induct) simp_all

lemma move_not_loop_event: "move k p e q \<Longrightarrow> \<not> loop_event e"
  by (induction rule: move.induct) simp_all


lemma worker_step_pools:
  assumes "worker_step cfg r k s = Some s'"
  shows "pools s' = pools s \<or> (\<exists>pid. pools s' = snd (pool_Get cfg r pid (pools s))) \<or>
         (\<exists>mem. pools s' = putMemory mem (pools s))"
proof -
  from assms have k: "k < length (workers s)"
    by (simp add: worker_step_def split: if_splits)
  show ?thesis
  proof (cases "code (workers s ! k)")
    case (Pool_get pid g)
    with assms k have "pools s' = snd (pool_Get cfg r pid (pools s))"
      by (auto simp: worker_step_def continue_with_def emit_def split: prod.splits)
    then show ?thesis by blast
  next
    case (Put_memory mem q)
    with assms k have "pools s' = putMemory mem (pools s)"
      by (auto simp: worker_step_def continue_with_def emit_def)
    then show ?thesis by blast
  qed (use assms k in \<open>auto simp: worker_step_def deferred_step_def continue_with_def emit_def
         Let_def split: if_splits\<close>)
qed

lemma worker_step_counter:
  assumes "worker_step cfg r k s = Some s'"
  shows "(DownloadedFiles s' = DownloadedFiles s \<and>
          filter is_increment (trace s') = filter is_increment (trace s)) \<or>
         (DownloadedFiles s' = DownloadedFiles s + 1 \<and>
          filter is_increment (trace s') = filter is_increment (trace s) @ [Incremented k])"
proof -
  from assms have k: "k < length (workers s)"
    by (simp add: worker_step_def split: if_splits)
  show ?thesis
    using assms k
    by (cases "code (workers s ! k)")
       (auto simp: worker_step_def deferred_step_def continue_with_def emit_def Let_def
          split: if_splits prod.splits)
qed

subsection \<open>Slot accounting\<close>

lemma map_update_same:
  "k < length ws \<Longrightarrow> f x = f (ws ! k) \<Longrightarrow> map f (ws[k := x]) = map f ws"
  by (simp add: list_eq_iff_nth_eq nth_list_update)

lemma units_code [simp]:
  "k < length ws \<Longrightarrow> units (ws[k := (ws ! k)\<lparr>code := p\<rparr>]) = units ws"
  by (simp add: units_def map_update_same)

lemma units_append [simp]: "units (ws @ [w]) = units ws + (parts w - released w)"
  by (simp add: units_def)

lemma units_release:
  assumes "k < length ws" "released (ws ! k) < parts (ws ! k)"
    and "parts w' = parts (ws ! k)" "released w' = Suc (released (ws ! k))"
  shows "Suc (units (ws[k := w'])) = units ws"
proof -
  let ?f = "\<lambda>w. parts w - released w"
  have "?f (ws ! k) \<in> ?f ` set ws"
    using assms(1) by (intro imageI nth_mem)
  then have c: "?f (ws ! k) \<le> sum_list (map ?f ws)"
    by (simp add: member_le_sum_list)
  have "sum_list (map ?f (ws[k := w'])) = sum_list ((map ?f ws)[k := ?f w'])"
    by (simp add: map_update)
  also have "\<dots> = sum_list (map ?f ws) + ?f w' - ?f (ws ! k)"
    using assms(1) by (simp add: sum_list_update)
  finally show ?thesis
    using assms c by (simp add: units_def)
qed

lemma units_zero: "units ws = 0 \<Longrightarrow> k < length ws \<Longrightarrow> parts (ws ! k) \<le> released (ws ! k)"
  by (auto simp: units_def)

lemma held_le_units:
  assumes "k < length ws"
  shows "parts (ws ! k) - released (ws ! k) \<le> units ws"
proof -
  let ?f = "\<lambda>w. parts w - released w"
  have "?f (ws ! k) \<in> ?f ` set ws"
    using assms by (intro imageI nth_mem)
  then show ?thesis
    by (simp add: units_def member_le_sum_list)
qed

lemma part_count_pos: "0 < part_count t"
  by (simp add: part_count_def)

lemma inv_units_initial: "inv_units (initial ps)"
  by (simp add: inv_units_def initial_def active_units_def units_def)

lemma inv_units_env: "inv_units s \<Longrightarrow> env_step e s = Some s' \<Longrightarrow> inv_units s'"
  by (cases e) (auto simp: env_step_def inv_units_def active_units_def emit_def split: if_splits)

lemma inv_units_orch:
  assumes "inv_units s" "Downloader_step cfg c s = Some s'"
  shows "inv_units s'"
  using assms(2,1)
proof (cases rule: Downloader_stepE)
  case (go t n i)
  with assms(1) show ?thesis
    by (auto simp: inv_units_def active_units_def spawn_def nth_append)
qed (auto simp: inv_units_def active_units_def limit_def)

lemma inv_units_worker:
  assumes "inv_units s" "worker_step cfg orc k s = Some s'"
  shows "inv_units s'"
  using assms(2,1)
proof (cases rule: worker_stepE)
  case release
  have "Suc (units (workers s')) = units (workers s)"
    using release by (simp add: units_release)
  with release assms(1) show ?thesis
    by (auto simp: inv_units_def active_units_def nth_list_update)
qed (auto simp: inv_units_def active_units_def nth_list_update)

lemma inv_units_next: "inv_units s \<Longrightarrow> next_state cfg a s = Some s' \<Longrightarrow> inv_units s'"
  by (cases a) (auto simp: next_state_def split: if_splits
       intro: inv_units_env inv_units_orch inv_units_worker)

lemma reachable_inv_units: "reachable cfg ps s \<Longrightarrow> inv_units s"
  by (induction rule: reachable_induct) (auto intro: inv_units_initial inv_units_next)

subsection \<open>The deferred loop\<close>

lemma inv_release_initial: "inv_release (initial ps)"
  by (simp add: inv_release_def initial_def)

lemma inv_release_env: "inv_release s \<Longrightarrow> env_step e s = Some s' \<Longrightarrow> inv_release s'"
  by (cases e) (auto simp: env_step_def inv_release_def emit_def split: if_splits)

lemma inv_release_orch:
  assumes "inv_release s" "Downloader_step cfg c s = Some s'"
  shows "inv_release s'"
  using assms(2,1)
proof (cases rule: Downloader_stepE)
  case (go t n i)
  with assms(1) show ?thesis
    by (auto simp: inv_release_def spawn_def nth_append less_Suc_eq)
qed (auto simp: inv_release_def)

lemma inv_release_worker:
  assumes "inv_release s" "worker_step cfg orc k s = Some s'"
  shows "inv_release s'"
  using assms(2,1)
proof (cases rule: worker_stepE)
  case (body e p ps d)
  have "code (workers s ! k) \<noteq> Return \<and> code (workers s ! k) \<noteq> Panic"
    using body(2) by (rule move_not_terminal)
  then have z: "released (workers s ! k) = 0"
    using assms(1) body(1) by (auto simp: inv_release_def)
  have ne: "\<And>j. e \<noteq> Released j"
    using body(2) by (rule move_not_released)
  show ?thesis
    unfolding inv_release_def
  proof (intro conjI allI impI)
    fix j show "count_list (trace s') (Released j) =
          (if j < length (workers s') then released (workers s' ! j) else 0)"
      using assms(1) body(1,4) ne [of j] by (simp add: inv_release_def nth_list_update)
  next
    fix j assume "j < length (workers s')" "0 < released (workers s' ! j)"
    then show "code (workers s' ! j) = Return \<or> code (workers s' ! j) = Panic"
      using assms(1) body(1,4) z by (cases "j = k") (simp_all add: inv_release_def)
  qed
next
  case (closed_send f q)
  then have z: "released (workers s ! k) = 0"
    using assms(1) by (auto simp: inv_release_def)
  show ?thesis
    unfolding inv_release_def
  proof (intro conjI allI impI)
    fix j show "count_list (trace s') (Released j) =
          (if j < length (workers s') then released (workers s' ! j) else 0)"
      using assms(1) closed_send by (simp add: inv_release_def nth_list_update)
  next
    fix j assume "j < length (workers s')" "0 < released (workers s' ! j)"
    then show "code (workers s' ! j) = Return \<or> code (workers s' ! j) = Panic"
      using assms(1) closed_send z by (cases "j = k") (simp_all add: inv_release_def)
  qed
next
  case release
  show ?thesis
    unfolding inv_release_def
  proof (intro conjI allI impI)
    fix j show "count_list (trace s') (Released j) =
          (if j < length (workers s') then released (workers s' ! j) else 0)"
      using assms(1) release by (simp add: inv_release_def nth_list_update)
  next
    fix j assume "j < length (workers s')" "0 < released (workers s' ! j)"
    then show "code (workers s' ! j) = Return \<or> code (workers s' ! j) = Panic"
      using assms(1) release by (cases "j = k") (simp_all add: inv_release_def)
  qed
next
  case crash
  with assms(1) show ?thesis
    by (simp add: inv_release_def)
qed

lemma inv_release_next: "inv_release s \<Longrightarrow> next_state cfg a s = Some s' \<Longrightarrow> inv_release s'"
  by (cases a) (auto simp: next_state_def split: if_splits
       intro: inv_release_env inv_release_orch inv_release_worker)

lemma reachable_inv_release: "reachable cfg ps s \<Longrightarrow> inv_release s"
  by (induction rule: reachable_induct) (auto intro: inv_release_initial inv_release_next)

lemma ended_released_all:
  assumes u: "inv_units s" and k: "k < length (workers s)"
    and n: "worker_step cfg orc k s = None"
  shows "code (workers s ! k) = Return \<and> released (workers s ! k) = parts (workers s ! k)"
proof -
  have le: "released (workers s ! k) \<le> parts (workers s ! k)"
    using u k by (auto simp: inv_units_def)
  have "swg_current s = units (workers s) + reserving (opc s)"
    using u by (simp add: inv_units_def active_units_def)
  then have pos: "released (workers s ! k) < parts (workers s ! k) \<Longrightarrow> 0 < swg_current s"
    using held_le_units [OF k] by arith
  show ?thesis
    using n k le pos
    by (cases "code (workers s ! k)")
       (auto simp: worker_step_def deferred_step_def Let_def split: if_splits prod.splits)
qed


subsection \<open>Closing the result channel\<close>

lemma snoc_eq_split:
  assumes "tr @ [e] = pre @ x # post"
  shows "(post = [] \<and> tr = pre \<and> e = x) \<or> (\<exists>post'. post = post' @ [e] \<and> tr = pre @ x # post')"
proof (cases post rule: rev_cases)
  case Nil
  with assms show ?thesis by simp
next
  case (snoc post' y)
  with assms have "tr @ [e] = (pre @ x # post') @ [y]" by simp
  then have "tr = pre @ x # post' \<and> e = y" by (simp only: append1_eq_conv)
  with snoc show ?thesis by simp
qed

lemma after_close_snoc:
  assumes old: "quiet_after_close tr"
    and e: "ClosedDone \<in> set tr \<longrightarrow> e \<noteq> ClosedDone \<and> (\<forall>k f. e \<noteq> SentDone k f)"
  shows "quiet_after_close (tr @ [e])"
  unfolding quiet_after_close_def
proof (intro allI impI)
  fix pre post assume eq: "tr @ [e] = pre @ ClosedDone # post"
  from snoc_eq_split [OF eq]
  show "\<forall>x \<in> set post. x \<noteq> ClosedDone \<and> (\<forall>k f. x \<noteq> SentDone k f)"
  proof
    assume "post = [] \<and> tr = pre \<and> e = ClosedDone"
    then show ?thesis by simp
  next
    assume "\<exists>post'. post = post' @ [e] \<and> tr = pre @ ClosedDone # post'"
    then obtain post' where p: "post = post' @ [e]" "tr = pre @ ClosedDone # post'" by blast
    have "\<forall>x \<in> set post'. x \<noteq> ClosedDone \<and> (\<forall>k f. x \<noteq> SentDone k f)"
      using old p(2) unfolding quiet_after_close_def by blast
    moreover have "e \<noteq> ClosedDone \<and> (\<forall>k f. e \<noteq> SentDone k f)"
      using e p(2) by simp
    ultimately show ?thesis using p(1) by simp
  qed
qed


lemma inv_close_initial: "inv_close (initial ps)"
  by (simp add: inv_close_def initial_def quiet_after_close_def)

lemma inv_close_env: "inv_close s \<Longrightarrow> env_step e s = Some s' \<Longrightarrow> inv_close s'"
proof (cases e)
  case (Produce t)
  assume "inv_close s" "env_step e s = Some s'"
  with Produce show ?thesis
    by (auto simp: env_step_def inv_close_def split: if_splits)
next
  case Close_tasks
  assume "inv_close s" "env_step e s = Some s'"
  with Close_tasks show ?thesis
    by (auto simp: env_step_def inv_close_def split: if_splits)
next
  case Cancel
  assume i: "inv_close s" and "env_step e s = Some s'"
  with Cancel have s': "s' = s\<lparr>cancelled := True, trace := trace s @ [CtxCancelled]\<rparr>"
    by (simp add: env_step_def emit_def)
  have "quiet_after_close (trace s @ [CtxCancelled])"
    using i by (intro after_close_snoc) (auto simp: inv_close_def)
  with i s' show ?thesis
    by (auto simp: inv_close_def)
qed

lemma inv_close_orch:
  assumes "inv_close s" "Downloader_step cfg c s = Some s'"
  shows "inv_close s'"
  using assms(2)
proof (cases rule: Downloader_stepE)
  case ctx_done
  with assms(1) show ?thesis by simp
next
  case (recv t ts)
  have "quiet_after_close (trace s @ [Consumed t])"
    using assms(1) by (intro after_close_snoc) (auto simp: inv_close_def)
  with assms(1) recv show ?thesis
    by (auto simp: inv_close_def)
next
  case closed
  with assms(1) show ?thesis by (auto simp: inv_close_def)
next
  case (add t n i)
  have "quiet_after_close (trace s @ [Reserved])"
    using assms(1) by (intro after_close_snoc) (auto simp: inv_close_def)
  with assms(1) add show ?thesis
    by (auto simp: inv_close_def)
next
  case (go t n i)
  have "quiet_after_close (trace s @ [Dispatched (length (workers s))])"
    using assms(1) by (intro after_close_snoc) (auto simp: inv_close_def)
  with assms(1) go show ?thesis
    by (auto simp: inv_close_def)
next
  case close
  then have nc: "\<not> done_closed s" using assms(1) by (auto simp: inv_close_def)
  have "quiet_after_close (trace s @ [ClosedDone])"
    using assms(1) nc by (intro after_close_snoc) (auto simp: inv_close_def)
  with assms(1) close show ?thesis
    by (auto simp: inv_close_def)
qed

lemma inv_close_worker:
  assumes "inv_close s" "inv_units s" "worker_step cfg orc k s = Some s'"
  shows "inv_close s'"
  using assms(3)
proof (cases rule: worker_stepE)
  case (body e p ps d)
  have "e \<noteq> ClosedDone" using body(2) by (rule move_not_closed_done)
  moreover have "done_closed s \<longrightarrow> (\<forall>j f. e \<noteq> SentDone j f)"
    using body(2,3) move_sent_done by blast
  ultimately have "quiet_after_close (trace s @ [e])"
    using assms(1) by (intro after_close_snoc) (auto simp: inv_close_def)
  with assms(1) body(4) \<open>e \<noteq> ClosedDone\<close> show ?thesis
    by (auto simp: inv_close_def)
next
  case (closed_send f q)
  with assms(1) show ?thesis by (auto simp: inv_close_def)
next
  case release
  have "parts (workers s ! k) - released (workers s ! k) \<le> units (workers s)"
    using release(1) by (rule held_le_units)
  moreover have "swg_wg s = units (workers s) + reserving (opc s)"
    using assms(2) by (simp add: inv_units_def active_units_def)
  ultimately have "0 < swg_wg s" using release(3) by arith
  then have nc: "\<not> done_closed s" using assms(1) by (auto simp: inv_close_def)
  have "quiet_after_close (trace s @ [Released k])"
    using assms(1) by (intro after_close_snoc) (auto simp: inv_close_def)
  with assms(1) release nc show ?thesis
    by (auto simp: inv_close_def)
next
  case crash
  with assms(1) show ?thesis by (auto simp: inv_close_def)
qed

lemma reachable_inv_close: "reachable cfg ps s \<Longrightarrow> inv_close s"
proof (induction rule: reachable_induct)
  case init
  show ?case by (rule inv_close_initial)
next
  case (step s a s')
  have u: "inv_units s" using step(1) by (rule reachable_inv_units)
  show ?case
  proof (cases a)
    case (Env e)
    with step show ?thesis
      by (auto simp: next_state_def split: if_splits intro: inv_close_env)
  next
    case (Downloader c)
    with step show ?thesis
      by (auto simp: next_state_def split: if_splits intro: inv_close_orch)
  next
    case (Worker k r)
    with step u show ?thesis
      by (auto simp: next_state_def split: if_splits intro: inv_close_worker)
  qed
qed

lemma closed_all_finished:
  assumes u: "inv_units s" and r: "inv_release s" and c: "inv_close s"
    and d: "done_closed s" and k: "k < length (workers s)"
  shows "released (workers s ! k) = parts (workers s ! k) \<and>
         (code (workers s ! k) = Return \<or> code (workers s ! k) = Panic)"
proof -
  have "swg_wg s = 0" using c d by (auto simp: inv_close_def)
  then have "units (workers s) + reserving (opc s) = 0"
    using u by (simp add: inv_units_def active_units_def)
  then have "units (workers s) = 0" by simp
  then have "parts (workers s ! k) \<le> released (workers s ! k)"
    using k by (rule units_zero)
  moreover have "released (workers s ! k) \<le> parts (workers s ! k)"
    and pc: "parts (workers s ! k) = part_count (task (workers s ! k))"
    using u k by (auto simp: inv_units_def)
  ultimately have eq: "released (workers s ! k) = parts (workers s ! k)" by simp
  then have "0 < released (workers s ! k)"
    using pc part_count_pos [of "task (workers s ! k)"] by simp
  then have "code (workers s ! k) = Return \<or> code (workers s ! k) = Panic"
    using r k by (auto simp: inv_release_def)
  with eq show ?thesis by simp
qed

text \<open>So no goroutine ever stands at a send on the closed \<open>doneCh\<close>.\<close>

lemma no_send_on_closed:
  assumes "reachable cfg ps s" "k < length (workers s)" "code (workers s ! k) = Send_done f q"
  shows "\<not> done_closed s"
proof
  assume "done_closed s"
  from closed_all_finished [OF reachable_inv_units [OF assms(1)] reachable_inv_release [OF assms(1)]
      reachable_inv_close [OF assms(1)] this assms(2)]
  show False using assms(3) by simp
qed

subsection \<open>Every goroutine runs its body\<close>

lemma worker_events_snoc [simp]:
  "worker_events k (tr @ [e]) = (if body_event e = Some k then worker_events k tr @ [e] else worker_events k tr)"
  by (simp add: worker_events_def)

lemma worker_events_fresh:
  "\<forall>e \<in> set tr. \<forall>j. body_event e = Some j \<longrightarrow> j < n \<Longrightarrow> worker_events n tr = []"
  by (auto simp: worker_events_def filter_empty_conv)

lemma worker_events_mem:
  "e \<in> set tr \<Longrightarrow> body_event e = Some k \<Longrightarrow> e \<in> set (worker_events k tr)"
  by (simp add: worker_events_def)

lemma count_list_worker_events:
  "body_event e = Some k \<Longrightarrow> count_list (worker_events k tr) e = count_list tr e"
  by (induction tr) (auto simp: worker_events_def)

lemma inv_body_initial: "inv_body cfg (initial ps)"
  by (simp add: inv_body_def initial_def)

lemma inv_body_env: "inv_body cfg s \<Longrightarrow> env_step e s = Some s' \<Longrightarrow> inv_body cfg s'"
  by (cases e) (auto simp: env_step_def inv_body_def emit_def split: if_splits)

lemma inv_body_orch:
  assumes "inv_body cfg s" "Downloader_step cfg c s = Some s'"
  shows "inv_body cfg s'"
  using assms(2,1)
proof (cases rule: Downloader_stepE)
  case (go t n i)
  have fresh: "worker_events (length (workers s)) (trace s) = []"
    using assms(1) by (intro worker_events_fresh) (auto simp: inv_body_def)
  show ?thesis
    unfolding inv_body_def
  proof (intro conjI allI impI ballI)
    fix k assume "k < length (workers s')"
    then have "k < length (workers s) \<or> k = length (workers s)"
      using go by (simp add: less_Suc_eq)
    then consider "k < length (workers s)" | "k = length (workers s)"
      by blast
    then show "follows k (download_body (maxMemObject cfg) (task (workers s' ! k)) (parts (workers s' ! k)))
          (worker_events k (trace s')) (code (workers s' ! k))"
    proof cases
      case 1
      with assms(1) go show ?thesis by (simp add: inv_body_def nth_append)
    next
      case 2
      with go fresh show ?thesis by (simp add: spawn_def follows.start)
    qed
  next
    fix e k assume "e \<in> set (trace s')" "body_event e = Some k"
    with assms(1) go show "k < length (workers s')"
      by (auto simp: inv_body_def less_Suc_eq)
  qed
qed (auto simp: inv_body_def)

lemma inv_body_worker:
  assumes "inv_body cfg s" "worker_step cfg orc k s = Some s'" "reachable cfg ps s"
  shows "inv_body cfg s'"
  using assms(2,1)
proof (cases rule: worker_stepE)
  case (body e p ps d)
  have ev: "body_event e = Some k" using body(2) by (rule move_body_event)
  have old: "follows k (download_body (maxMemObject cfg) (task (workers s ! k)) (parts (workers s ! k)))
          (worker_events k (trace s)) (code (workers s ! k))"
    using assms(1) body(1) by (simp add: inv_body_def)
  have new: "follows k (download_body (maxMemObject cfg) (task (workers s ! k)) (parts (workers s ! k)))
          (worker_events k (trace s) @ [e]) p"
    using old body(2) by (rule follows.moved)
  show ?thesis
    unfolding inv_body_def
  proof (intro conjI allI impI ballI)
    fix j assume "j < length (workers s')"
    then show "follows j (download_body (maxMemObject cfg) (task (workers s' ! j)) (parts (workers s' ! j)))
          (worker_events j (trace s')) (code (workers s' ! j))"
      using assms(1) body new ev by (cases "j = k") (simp_all add: inv_body_def)
  next
    fix e' j assume "e' \<in> set (trace s')" "body_event e' = Some j"
    with assms(1) body(1,4) ev show "j < length (workers s')"
      by (auto simp: inv_body_def)
  qed
next
  case (closed_send f q)
  then have False
    using no_send_on_closed [OF assms(3)] by blast
  then show ?thesis ..
next
  case release
  with assms(1) show ?thesis
    by (auto simp: inv_body_def nth_list_update)
next
  case crash
  with assms(1) show ?thesis
    by (auto simp: inv_body_def)
qed

lemma reachable_inv_body: "reachable cfg ps s \<Longrightarrow> inv_body cfg s"
proof (induction rule: reachable_induct)
  case init
  show ?case by (rule inv_body_initial)
next
  case (step s a s')
  show ?case
  proof (cases a)
    case (Env e)
    with step show ?thesis
      by (auto simp: next_state_def split: if_splits intro: inv_body_env)
  next
    case (Downloader c)
    with step show ?thesis
      by (auto simp: next_state_def split: if_splits intro: inv_body_orch)
  next
    case (Worker k r)
    with step.hyps have w: "worker_step cfg r k s = Some s'"
      by (simp add: next_state_def split: if_splits)
    show ?thesis
      using step.IH w step.hyps(1) by (rule inv_body_worker)
  qed
qed

lemma reachable_follows:
  assumes "reachable cfg ps s" "k < length (workers s)"
  shows "follows k (download_body (maxMemObject cfg) (task (workers s ! k)) (parts (workers s ! k)))
      (worker_events k (trace s)) (code (workers s ! k))"
proof -
  have "inv_body cfg s" using assms(1) by (rule reachable_inv_body)
  then show ?thesis using assms(2) by (simp add: inv_body_def)
qed

subsection \<open>The ways through the body\<close>

lemma resolves_body: "resolves t (download_body m t n) 1"
  by (simp add: download_body_def in_memory_def in_parts_def split: option.splits)

lemma follows_resolves:
  assumes "follows k p evs q" "resolves t p n"
  shows "length (filter is_outcome evs) \<le> n \<and>
         resolves t q (n - length (filter is_outcome evs)) \<and>
         (\<forall>e \<in> set evs. about t e)"
  using assms
proof (induction rule: follows.induct)
  case start
  then show ?case by simp
next
  case (moved evs q e r)
  then have ih: "length (filter is_outcome evs) \<le> n"
    "resolves t q (n - length (filter is_outcome evs))" "\<forall>e \<in> set evs. about t e"
    by simp_all
  from moved.hyps(2) ih show ?case
    by (induction rule: move.induct) auto
qed

lemma outcomes_unfold: "outcomes k tr = filter is_outcome (worker_events k tr)"
  by (simp add: outcomes_def)

lemma returned_sent_outcome:
  assumes "reachable cfg ps s" "k < length (workers s)" "code (workers s ! k) = Return"
  shows "length (outcomes k (trace s)) = 1"
proof -
  from follows_resolves [OF reachable_follows [OF assms(1,2)] resolves_body]
  have "length (outcomes k (trace s)) \<le> 1"
    and "resolves (task (workers s ! k)) (code (workers s ! k)) (1 - length (outcomes k (trace s)))"
    by (simp_all add: outcomes_unfold)
  with assms(3) show ?thesis by simp
qed

lemma follows_empty_object:
  assumes "follows k (Send_done f (Atomic_add Return)) evs q"
  shows "(evs = [] \<and> q = Send_done f (Atomic_add Return)) \<or>
         (evs = [SentDone k f] \<and> q = Atomic_add Return) \<or>
         (evs = [SentDone k f, Incremented k] \<and> q = Return)"
  using assms
proof (induction rule: follows.induct)
  case start
  show ?case by simp
next
  case (moved evs q e r)
  from moved.hyps(2) moved.IH show ?case
    by (induction rule: move.induct) auto
qed

lemma follows_in_parts:
  assumes "follows k (in_parts t n) evs q"
  shows "(evs = [] \<and> q = in_parts t n) \<or>
     (\<exists>msg. evs = [ReadInParts k (Filename t) (Size t) n] \<and>
        q = Send_err \<lparr>ev_Size = Size t, ev_Filename = Filename t,
              Err = Error_downloading_to_temporary_file (Filename t) msg\<rparr> Return) \<or>
     (\<exists>msg. evs = [ReadInParts k (Filename t) (Size t) n,
          SentErr k \<lparr>ev_Size = Size t, ev_Filename = Filename t,
              Err = Error_downloading_to_temporary_file (Filename t) msg\<rparr>] \<and> q = Return) \<or>
     (\<exists>path. evs = [ReadInParts k (Filename t) (Size t) n] \<and>
        q = Send_done \<lparr>wf_Size = Size t, wf_Filename = Filename t,
              TempFile = path, Bytes = None\<rparr> (Atomic_add Return)) \<or>
     (\<exists>path. evs = [ReadInParts k (Filename t) (Size t) n,
          SentDone k \<lparr>wf_Size = Size t, wf_Filename = Filename t,
              TempFile = path, Bytes = None\<rparr>] \<and> q = Atomic_add Return) \<or>
     (\<exists>path. evs = [ReadInParts k (Filename t) (Size t) n,
          SentDone k \<lparr>wf_Size = Size t, wf_Filename = Filename t,
              TempFile = path, Bytes = None\<rparr>, Incremented k] \<and> q = Return)"
  using assms
proof (induction rule: follows.induct)
  case start
  show ?case by simp
next
  case (moved evs q e r)
  from moved.hyps(2) moved.IH show ?case
    by (induction rule: move.induct) (auto simp: in_parts_def split: option.splits)
qed

lemma follows_in_memory:
  assumes "follows k (Pool_get pid (in_memory t)) evs q"
  shows "(evs = [] \<and> q = Pool_get pid (in_memory t)) \<or>
     (\<exists>mem. evs = [PoolGet k mem] \<and> q = in_memory t mem) \<or>
     (\<exists>mem c. evs = [PoolGet k mem, ReadToBuffer k (Filename t)] \<and>
        q = Send_err \<lparr>ev_Size = Size t, ev_Filename = Filename t, Err = c\<rparr>
              (Put_memory mem Return)) \<or>
     (\<exists>mem c. evs = [PoolGet k mem, ReadToBuffer k (Filename t),
          SentErr k \<lparr>ev_Size = Size t, ev_Filename = Filename t, Err = c\<rparr>] \<and>
        q = Put_memory mem Return) \<or>
     (\<exists>mem c. evs = [PoolGet k mem, ReadToBuffer k (Filename t),
          SentErr k \<lparr>ev_Size = Size t, ev_Filename = Filename t, Err = c\<rparr>,
          PoolPut k (full_slice mem)] \<and> q = Return) \<or>
     (\<exists>mem. evs = [PoolGet k mem, ReadToBuffer k (Filename t)] \<and>
        slice_to mem (Size t) = None \<and> q = Panic) \<or>
     (\<exists>mem b. evs = [PoolGet k mem, ReadToBuffer k (Filename t)] \<and>
        slice_to mem (Size t) = Some b \<and>
        q = Send_done \<lparr>wf_Size = Size t, wf_Filename = Filename t,
              TempFile = [], Bytes = Some b\<rparr> (Atomic_add Return)) \<or>
     (\<exists>mem b. evs = [PoolGet k mem, ReadToBuffer k (Filename t),
          SentDone k \<lparr>wf_Size = Size t, wf_Filename = Filename t,
              TempFile = [], Bytes = Some b\<rparr>] \<and>
        slice_to mem (Size t) = Some b \<and> q = Atomic_add Return) \<or>
     (\<exists>mem b. evs = [PoolGet k mem, ReadToBuffer k (Filename t),
          SentDone k \<lparr>wf_Size = Size t, wf_Filename = Filename t,
              TempFile = [], Bytes = Some b\<rparr>, Incremented k] \<and>
        slice_to mem (Size t) = Some b \<and> q = Return)"
  using assms
proof (induction rule: follows.induct)
  case start
  show ?case by simp
next
  case (moved evs q e r)
  from moved.hyps(2) moved.IH show ?case
    by (induction rule: move.induct) (auto simp: in_memory_def split: option.splits if_splits)
qed

lemma download_body_cases:
  "download_body m t n =
      Send_done \<lparr>wf_Size = Size t, wf_Filename = Filename t, TempFile = [], Bytes = None\<rparr>
        (Atomic_add Return) \<or>
   (\<exists>pid. download_body m t n = Pool_get pid (in_memory t)) \<or>
   download_body m t n = in_parts t n"
  by (simp add: download_body_def)

lemma panic_only_on_small_block:
  assumes "reachable cfg ps s" "k < length (workers s)" "code (workers s ! k) = Panic"
  shows "\<exists>mem. PoolGet k mem \<in> set (trace s) \<and> slice_to mem (Size (task (workers s ! k))) = None"
proof -
  let ?t = "task (workers s ! k)" and ?n = "parts (workers s ! k)"
  have f: "follows k (download_body (maxMemObject cfg) ?t ?n) (worker_events k (trace s)) Panic"
    using reachable_follows [OF assms(1,2)] assms(3) by simp
  have sub: "set (worker_events k (trace s)) \<subseteq> set (trace s)"
    by (simp add: worker_events_def)
  consider (empty) "download_body (maxMemObject cfg) ?t ?n =
        Send_done \<lparr>wf_Size = Size ?t, wf_Filename = Filename ?t, TempFile = [], Bytes = None\<rparr>
          (Atomic_add Return)"
    | (memory) pid where "download_body (maxMemObject cfg) ?t ?n = Pool_get pid (in_memory ?t)"
    | (parts) "download_body (maxMemObject cfg) ?t ?n = in_parts ?t ?n"
    using download_body_cases [of "maxMemObject cfg" ?t ?n] by blast
  then show ?thesis
  proof cases
    case empty
    with f follows_empty_object show ?thesis by fastforce
  next
    case (memory pid)
    with f have "follows k (Pool_get pid (in_memory ?t)) (worker_events k (trace s)) Panic"
      by simp
    from follows_in_memory [OF this]
    obtain mem where "worker_events k (trace s) = [PoolGet k mem, ReadToBuffer k (Filename ?t)]"
      "slice_to mem (Size ?t) = None"
      by (auto simp: in_memory_def)
    with sub show ?thesis by auto
  next
    case parts
    with f have "follows k (in_parts ?t ?n) (worker_events k (trace s)) Panic"
      by simp
    from follows_in_parts [OF this] show ?thesis
      by (auto simp: in_parts_def)
  qed
qed

subsection \<open>The trace of the loop\<close>

lemma admissions_code [simp]:
  "k < length ws \<Longrightarrow> admissions (ws[k := (ws ! k)\<lparr>code := p\<rparr>]) = admissions ws"
  by (auto simp: admissions_def admission_def nth_list_update intro!: arg_cong [where f = concat])

lemma admissions_released [simp]:
  "k < length ws \<Longrightarrow> admissions (ws[k := (ws ! k)\<lparr>released := n\<rparr>]) = admissions ws"
  by (auto simp: admissions_def admission_def nth_list_update intro!: arg_cong [where f = concat])

lemma admissions_append:
  "admissions (ws @ [w]) = admissions ws @ admission (length ws) w"
proof -
  have "map (\<lambda>k. admission k ((ws @ [w]) ! k)) [0..<length ws]
      = map (\<lambda>k. admission k (ws ! k)) [0..<length ws]"
    by (rule map_cong) (simp_all add: nth_append)
  then have "concat (map (\<lambda>k. admission k ((ws @ [w]) ! k)) [0..<length ws]) = admissions ws"
    by (simp only: admissions_def)
  moreover have "admissions (ws @ [w])
      = concat (map (\<lambda>k. admission k ((ws @ [w]) ! k)) [0..<length ws]) @ admission (length ws) w"
    by (simp add: admissions_def)
  ultimately show ?thesis
    by (simp only:)
qed

lemma inv_loop_initial: "inv_loop (initial ps)"
  by (simp add: inv_loop_def initial_def admissions_def)

lemma inv_loop_env: "inv_loop s \<Longrightarrow> env_step e s = Some s' \<Longrightarrow> inv_loop s'"
  by (cases e) (auto simp: env_step_def inv_loop_def emit_def split: if_splits)

lemma inv_loop_orch:
  assumes "inv_loop s" "inv_units s" "Downloader_step cfg c s = Some s'"
  shows "inv_loop s'"
  using assms(3)
proof (cases rule: Downloader_stepE)
  case (add t n i)
  with assms(1) show ?thesis
    by (simp add: inv_loop_def replicate_append_same)
next
  case (go t n i)
  have "i = n" using go(1,2) assms(2) by (auto simp: inv_units_def)
  with go assms(1) show ?thesis
    by (simp add: inv_loop_def admissions_append admission_def spawn_def)
qed (use assms(1) in \<open>simp_all add: inv_loop_def\<close>)

lemma inv_loop_worker:
  assumes "inv_loop s" "worker_step cfg r k s = Some s'"
  shows "inv_loop s'"
  using assms(2)
proof (cases rule: worker_stepE)
  case (body e p ps d)
  have "\<not> loop_event e" using body(2) by (rule move_not_loop_event)
  with body assms(1) show ?thesis by (simp add: inv_loop_def)
qed (use assms(1) in \<open>simp_all add: inv_loop_def\<close>)

lemma reachable_inv_loop: "reachable cfg ps s \<Longrightarrow> inv_loop s"
proof (induction rule: reachable_induct)
  case init
  show ?case by (rule inv_loop_initial)
next
  case (step s a s')
  have u: "inv_units s" using step(1) by (rule reachable_inv_units)
  show ?case
  proof (cases a)
    case (Env e)
    with step show ?thesis
      by (auto simp: next_state_def split: if_splits intro: inv_loop_env)
  next
    case (Downloader c)
    with step u show ?thesis
      by (auto simp: next_state_def split: if_splits intro: inv_loop_orch)
  next
    case (Worker k r)
    with step show ?thesis
      by (auto simp: next_state_def split: if_splits intro: inv_loop_worker)
  qed
qed




subsection \<open>The pools\<close>

lemma classed_take:
  assumes "\<forall>b \<in> set pool. P (cap b)" "P n" "pool_take n r pool = (mem, rest)"
  shows "P (cap mem) \<and> (\<forall>b \<in> set rest. P (cap b))"
proof (cases "\<exists>j. pick r = Some j \<and> j < length pool")
  case True
  then obtain j where j: "pick r = Some j" "j < length pool" by blast
  then have "mem = pool ! j" "rest = take j pool @ drop (Suc j) pool"
    using assms(3) by (simp_all add: pool_take_def)
  moreover have "set (take j pool @ drop (Suc j) pool) \<subseteq> set pool"
    using set_take_subset [of j pool] set_drop_subset [of "Suc j" pool] by auto
  ultimately show ?thesis
    using assms(1) j(2) by auto
next
  case False
  then have "mem = \<lparr>base = fresh r, len = n, cap = n\<rparr>" "rest = pool"
    using assms(3) by (auto simp: pool_take_def split: option.splits if_splits)
  then show ?thesis
    using assms(1,2) by simp
qed

lemma classed_Get:
  assumes "classed cfg ps" "pool_Get cfg r pid ps = (mem, ps')"
  shows "classed cfg ps' \<and> (pid = Pool32 \<longrightarrow> cap mem \<le> 32 * 1024) \<and>
         (pid = PoolLarge \<longrightarrow> 32 * 1024 < cap mem)"
proof (cases pid)
  case Pool32
  obtain m rest where t: "pool_take (new_cap32 cfg) r (bufPool32 ps) = (m, rest)"
    by (cases "pool_take (new_cap32 cfg) r (bufPool32 ps)")
  with assms(2) Pool32 have eq: "mem = m" "ps' = ps\<lparr>bufPool32 := rest\<rparr>"
    by (simp_all add: pool_Get_def)
  have "cap m \<le> 32 * 1024 \<and> (\<forall>b \<in> set rest. cap b \<le> 32 * 1024)"
    using assms(1) t by (intro classed_take [where P = "\<lambda>c. c \<le> 32 * 1024"]) (auto simp: classed_def)
  with assms(1) eq Pool32 show ?thesis
    by (simp add: classed_def)
next
  case PoolLarge
  obtain m rest where t: "pool_take (new_capLarge cfg) r (bufPoolLarge ps) = (m, rest)"
    by (cases "pool_take (new_capLarge cfg) r (bufPoolLarge ps)")
  with assms(2) PoolLarge have eq: "mem = m" "ps' = ps\<lparr>bufPoolLarge := rest\<rparr>"
    by (simp_all add: pool_Get_def)
  have "32 * 1024 < cap m \<and> (\<forall>b \<in> set rest. 32 * 1024 < cap b)"
    using assms(1) t by (intro classed_take [where P = "\<lambda>c. 32 * 1024 < c"]) (auto simp: classed_def)
  with assms(1) eq PoolLarge show ?thesis
    by (simp add: classed_def)
qed

lemma classed_putMemory: "classed cfg ps \<Longrightarrow> classed cfg (putMemory mem ps)"
  by (auto simp: classed_def putMemory_def full_slice_def Let_def)

lemma classed_next:
  assumes "classed cfg (pools s)" "next_state cfg a s = Some s'"
  shows "classed cfg (pools s')"
proof (cases a)
  case (Env e)
  with assms show ?thesis
    by (cases e) (auto simp: next_state_def env_step_def emit_def split: if_splits)
next
  case (Downloader c)
  with assms have "Downloader_step cfg c s = Some s'"
    by (simp add: next_state_def split: if_splits)
  then have "pools s' = pools s"
    by (cases rule: Downloader_stepE) simp_all
  with assms(1) show ?thesis by simp
next
  case (Worker k r)
  with assms have "worker_step cfg r k s = Some s'"
    by (simp add: next_state_def split: if_splits)
  from worker_step_pools [OF this] show ?thesis
  proof (elim disjE exE)
    assume "pools s' = pools s"
    with assms(1) show ?thesis by simp
  next
    fix pid assume p: "pools s' = snd (pool_Get cfg r pid (pools s))"
    obtain mem ps' where "pool_Get cfg r pid (pools s) = (mem, ps')"
      by (cases "pool_Get cfg r pid (pools s)")
    with classed_Get [OF assms(1) this] p show ?thesis by simp
  next
    fix mem assume "pools s' = putMemory mem (pools s)"
    with assms(1) show ?thesis by (simp add: classed_putMemory)
  qed
qed

lemma reachable_classed: "reachable cfg ps s \<Longrightarrow> classed cfg ps \<Longrightarrow> classed cfg (pools s)"
  by (induction rule: reachable_induct) (auto simp: initial_def intro: classed_next)

lemma in_memory_failure_steps:
  assumes c: "\<not> crashed s" and k: "k < length (workers s)"
    and b: "code (workers s ! k) = Pool_get pid (in_memory t)"
    and g: "pool_Get cfg r0 pid (pools s) = (mem, ps)"
    and f: "read_err r1 = Some e \<and> cs = Error_downloading_to_memory (Filename t) e \<or>
            read_err r1 = None \<and> read_n r1 \<noteq> Size t \<and>
            cs = Short_write (Filename t) (Size t) (read_n r1)"
  shows "exec cfg [Worker k r0, Worker k r1, Worker k r2, Worker k r3] s
         = Some (failed_in_memory k t mem ps cs s)"
  using assms
  by (auto simp: next_state_def worker_step_def emit_def continue_with_def in_memory_def
        failed_in_memory_def)

subsection \<open>The counter\<close>

lemma inv_counter_next:
  assumes "inv_counter s" "next_state cfg a s = Some s'"
  shows "inv_counter s'"
proof (cases a)
  case (Env e)
  with assms show ?thesis
    by (cases e) (auto simp: next_state_def env_step_def emit_def inv_counter_def split: if_splits)
next
  case (Downloader c)
  with assms have "Downloader_step cfg c s = Some s'"
    by (simp add: next_state_def split: if_splits)
  then show ?thesis
    using assms(1) by (cases rule: Downloader_stepE) (simp_all add: inv_counter_def)
next
  case (Worker k r)
  with assms have "worker_step cfg r k s = Some s'"
    by (simp add: next_state_def split: if_splits)
  from worker_step_counter [OF this] assms(1) show ?thesis
    by (auto simp: inv_counter_def)
qed

lemma inv_counter_initial: "inv_counter (initial ps)"
  by (simp add: inv_counter_def initial_def)

lemma reachable_inv_counter: "reachable cfg ps s \<Longrightarrow> inv_counter s"
  by (induction rule: reachable_induct) (auto intro: inv_counter_initial inv_counter_next)

subsection \<open>Evaluating schedules\<close>

lemmas model_defs =
  default_config_def empty_pools_def no_replies_def initial_def next_state_def env_step_def
  Downloader_step_def worker_step_def deferred_step_def emit_def continue_with_def
  part_count_def limit_def spawn_def download_body_def in_parts_def in_memory_def
  pool_Get_def pool_take_def putMemory_def full_slice_def slice_to_def
  word_sle_eq word_sless_alt

lemma reachable_after:
  "exec default_config as (initial empty_pools) \<noteq> None \<Longrightarrow>
   reachable default_config empty_pools (after as)"
  by (auto simp: reachable_def after_def)

lemmas panicked_defs =
  panicked_def tiny_blocks_def full_read_def panicking_run_def failing_object_def

lemma reachable_panicked: "reachable tiny_blocks empty_pools panicked"
proof -
  have "exec tiny_blocks panicking_run (initial empty_pools) \<noteq> None"
    by (simp add: panicked_defs model_defs)
  then show ?thesis
    by (auto simp: reachable_def panicked_def)
qed

lemma panicked_worker: "(0::nat) < length (workers panicked)"
  by (simp add: panicked_defs model_defs)

subsection \<open>Reservations and releases\<close>

lemma move_not_reserved: "move k p e q \<Longrightarrow> e \<noteq> Reserved \<and> \<not> is_release e"
  by (induction rule: move.induct) simp_all

lemma inv_reserved_initial: "inv_reserved (initial ps)"
  by (simp add: inv_reserved_def initial_def)

lemma inv_reserved_next:
  assumes "inv_reserved s" "next_state cfg a s = Some s'"
  shows "inv_reserved s'"
proof (cases a)
  case (Env e)
  with assms show ?thesis
    by (cases e) (auto simp: next_state_def env_step_def emit_def inv_reserved_def split: if_splits)
next
  case (Downloader c)
  with assms have "Downloader_step cfg c s = Some s'"
    by (simp add: next_state_def split: if_splits)
  then show ?thesis
    using assms(1) by (cases rule: Downloader_stepE) (simp_all add: inv_reserved_def)
next
  case (Worker k r)
  with assms have "worker_step cfg r k s = Some s'"
    by (simp add: next_state_def split: if_splits)
  then show ?thesis
  proof (cases rule: worker_stepE)
    case (body e p ps d)
    with move_not_reserved [OF body(2)] assms(1) show ?thesis
      by (simp add: inv_reserved_def)
  next
    case release
    with assms(1) show ?thesis
      by (simp add: inv_reserved_def)
  qed (use assms(1) in \<open>simp_all add: inv_reserved_def\<close>)
qed

lemma reachable_inv_reserved: "reachable cfg ps s \<Longrightarrow> inv_reserved s"
  by (induction rule: reachable_induct) (auto intro: inv_reserved_initial inv_reserved_next)

lemma reachable_next: "reachable cfg ps s \<Longrightarrow> next_state cfg a s = Some s' \<Longrightarrow> reachable cfg ps s'"
proof -
  assume "reachable cfg ps s" and n: "next_state cfg a s = Some s'"
  then obtain as where "exec cfg as (initial ps) = Some s" by (auto simp: reachable_def)
  then have "exec cfg (as @ [a]) (initial ps) = Some s'"
    using n by (simp add: exec_append)
  then show ?thesis unfolding reachable_def by blast
qed

text \<open>One step of the deferred loop, as an equation.\<close>

lemma deferred_step_releases:
  assumes u: "inv_units s" and k: "k < length (workers s)"
    and t: "code (workers s ! k) = Return \<or> code (workers s ! k) = Panic"
    and l: "released (workers s ! k) < parts (workers s ! k)"
  shows "0 < swg_current s \<and>
     worker_step cfg r k s =
       Some (s\<lparr>swg_current := swg_current s - 1, swg_wg := swg_wg s - 1,
               workers := (workers s)[k := (workers s ! k)\<lparr>released := released (workers s ! k) + 1\<rparr>],
               trace := trace s @ [Released k]\<rparr>)"
proof -
  have "swg_current s = units (workers s) + reserving (opc s)"
    using u by (simp add: inv_units_def active_units_def)
  then have pos: "0 < swg_current s"
    using held_le_units [OF k] l by arith
  show ?thesis
    using pos k t l
    by (auto simp: worker_step_def deferred_step_def emit_def Let_def)
qed

text \<open>The whole deferred loop.\<close>

lemma deferred_loop_runs:
  assumes "reachable cfg ps s" "\<not> crashed s" "k < length (workers s)"
    and "code (workers s ! k) = Return \<or> code (workers s ! k) = Panic"
    and "n = parts (workers s ! k) - released (workers s ! k)"
  shows "\<exists>s'. exec cfg (replicate n (Worker k r)) s = Some s' \<and>
           released (workers s' ! k) = parts (workers s' ! k) \<and>
           parts (workers s' ! k) = parts (workers s ! k) \<and>
           code (workers s' ! k) = code (workers s ! k) \<and>
           swg_current s' + n = swg_current s \<and>
           trace s' = trace s @ replicate n (Released k)"
  using assms
proof (induction n arbitrary: s)
  case 0
  have "released (workers s ! k) \<le> parts (workers s ! k)"
    using reachable_inv_units [OF "0.prems"(1)] "0.prems"(3) by (auto simp: inv_units_def)
  with "0.prems"(5) show ?case by simp
next
  case (Suc n)
  let ?s1 = "s\<lparr>swg_current := swg_current s - 1, swg_wg := swg_wg s - 1,
               workers := (workers s)[k := (workers s ! k)\<lparr>released := released (workers s ! k) + 1\<rparr>],
               trace := trace s @ [Released k]\<rparr>"
  have l: "released (workers s ! k) < parts (workers s ! k)"
    using Suc.prems(5) by arith
  from deferred_step_releases [OF reachable_inv_units [OF Suc.prems(1)] Suc.prems(3,4) l, of cfg r]
  have pos: "0 < swg_current s" and st: "worker_step cfg r k s = Some ?s1"
    by simp_all
  have nx: "next_state cfg (Worker k r) s = Some ?s1"
    using st Suc.prems(2) by (simp add: next_state_def)
  have r1: "reachable cfg ps ?s1"
    using Suc.prems(1) nx by (rule reachable_next)
  have "\<exists>s'. exec cfg (replicate n (Worker k r)) ?s1 = Some s' \<and>
           released (workers s' ! k) = parts (workers s' ! k) \<and>
           parts (workers s' ! k) = parts (workers ?s1 ! k) \<and>
           code (workers s' ! k) = code (workers ?s1 ! k) \<and>
           swg_current s' + n = swg_current ?s1 \<and>
           trace s' = trace ?s1 @ replicate n (Released k)"
    using r1 Suc.prems(2,3,4,5)
    by (intro Suc.IH) simp_all
  then obtain s' where s': "exec cfg (replicate n (Worker k r)) ?s1 = Some s'"
    "released (workers s' ! k) = parts (workers s' ! k)"
    "parts (workers s' ! k) = parts (workers ?s1 ! k)"
    "code (workers s' ! k) = code (workers ?s1 ! k)"
    "swg_current s' + n = swg_current ?s1"
    "trace s' = trace ?s1 @ replicate n (Released k)"
    by blast
  have "exec cfg (replicate (Suc n) (Worker k r)) s = Some s'"
    using nx s'(1) by simp
  moreover have "swg_current s' + Suc n = swg_current s"
    using s'(5) pos by simp
  moreover have "trace s' = trace s @ replicate (Suc n) (Released k)"
    using s'(6) by (simp add: replicate_app_Cons_same)
  ultimately show ?case
    using s'(2,3,4) Suc.prems(3) by auto
qed

subsection \<open>Honest reads\<close>





lemma returns_within_not_panic: "returns_within p n \<Longrightarrow> p \<noteq> Panic"
  by auto













section \<open>The claims\<close>



text \<open>
  C2. The slots taken from the sized wait group are exactly those held by the started
  goroutines plus those reserved so far for the descriptor being admitted, and never more
  than 16. Goroutine k holds its part count (1 or 8) until its body has returned or
  panicked. From then on every step of k is one step of the deferred loop: while slots are
  left to give back a slot is there to be given back, and the step gives back exactly one
  and leaves \<open>Released k\<close>; so part-count steps of k after the end of its body give back
  all of them, and the wait group is that much lower. With all given back a returned
  goroutine takes no further step and a panicking one ends the process, not before.
\<close>

theorem limiter_units_bounded_and_released:
  assumes "reachable cfg ps s"
  shows "active_units s = swg_current s \<and> active_units s \<le> 16 \<and> swg_wg s = swg_current s \<and>
     (\<forall>k < length (workers s).
        parts (workers s ! k) = part_count (task (workers s ! k)) \<and>
        count_list (trace s) (Released k) = released (workers s ! k) \<and>
        released (workers s ! k) \<le> parts (workers s ! k) \<and>
        (0 < released (workers s ! k) \<longrightarrow>
           code (workers s ! k) = Return \<or> code (workers s ! k) = Panic) \<and>
        (\<forall>r. worker_step cfg r k s = None \<longrightarrow>
           code (workers s ! k) = Return \<and>
           count_list (trace s) (Released k) = parts (workers s ! k)) \<and>
        (\<forall>r s'. worker_step cfg r k s = Some s' \<and> crashed s' \<and> \<not> crashed s \<longrightarrow>
           count_list (trace s) (Released k) = parts (workers s ! k)) \<and>
        ((code (workers s ! k) = Return \<or> code (workers s ! k) = Panic) \<and>
         released (workers s ! k) < parts (workers s ! k) \<longrightarrow>
           0 < swg_current s \<and>
           (\<forall>r. worker_step cfg r k s =
              Some (s\<lparr>swg_current := swg_current s - 1, swg_wg := swg_wg s - 1,
                      workers := (workers s)
                        [k := (workers s ! k)\<lparr>released := released (workers s ! k) + 1\<rparr>],
                      trace := trace s @ [Released k]\<rparr>))) \<and>
        (code (workers s ! k) = Return \<and> released (workers s ! k) = parts (workers s ! k) \<longrightarrow>
           (\<forall>r. worker_step cfg r k s = None)) \<and>
        (code (workers s ! k) = Panic \<and> released (workers s ! k) = parts (workers s ! k) \<longrightarrow>
           (\<forall>r. worker_step cfg r k s = Some (s\<lparr>crashed := True\<rparr>))) \<and>
        ((code (workers s ! k) = Return \<or> code (workers s ! k) = Panic) \<and> \<not> crashed s \<longrightarrow>
           (\<forall>r. \<exists>s'. exec cfg
                    (replicate (parts (workers s ! k) - released (workers s ! k)) (Worker k r)) s =
                    Some s' \<and>
                  released (workers s' ! k) = parts (workers s ! k) \<and>
                  swg_current s' + (parts (workers s ! k) - released (workers s ! k)) =
                    swg_current s \<and>
                  trace s' = trace s @
                    replicate (parts (workers s ! k) - released (workers s ! k)) (Released k))))"
proof -
  have u: "inv_units s" using assms by (rule reachable_inv_units)
  have r: "inv_release s" using assms by (rule reachable_inv_release)
  have a: "active_units s = swg_current s \<and> active_units s \<le> 16 \<and> swg_wg s = swg_current s"
    using u by (simp add: inv_units_def limit_def)
  have b: "parts (workers s ! k) = part_count (task (workers s ! k)) \<and>
        count_list (trace s) (Released k) = released (workers s ! k) \<and>
        released (workers s ! k) \<le> parts (workers s ! k) \<and>
        (0 < released (workers s ! k) \<longrightarrow>
           code (workers s ! k) = Return \<or> code (workers s ! k) = Panic)"
    if "k < length (workers s)" for k
    using u r that by (auto simp: inv_units_def inv_release_def)
  have c: "code (workers s ! k) = Return \<and>
           count_list (trace s) (Released k) = parts (workers s ! k)"
    if "k < length (workers s)" "worker_step cfg r k s = None" for k r
    using ended_released_all [OF u that] b [OF that(1)] by simp
  have d: "count_list (trace s) (Released k) = parts (workers s ! k)"
    if "k < length (workers s)" "worker_step cfg r k s = Some s'" "crashed s'" "\<not> crashed s"
    for k r s'
    using that(2)
  proof (cases rule: worker_stepE)
    case crash
    then show ?thesis using b [OF that(1)] by simp
  qed (use that in simp_all)
  have e: "0 < swg_current s \<and>
           (\<forall>r. worker_step cfg r k s =
              Some (s\<lparr>swg_current := swg_current s - 1, swg_wg := swg_wg s - 1,
                      workers := (workers s)
                        [k := (workers s ! k)\<lparr>released := released (workers s ! k) + 1\<rparr>],
                      trace := trace s @ [Released k]\<rparr>))"
    if "k < length (workers s)" "code (workers s ! k) = Return \<or> code (workers s ! k) = Panic"
      "released (workers s ! k) < parts (workers s ! k)" for k
    using deferred_step_releases [OF u that] by blast
  have f: "worker_step cfg r k s = None"
    if "k < length (workers s)" "code (workers s ! k) = Return"
      "released (workers s ! k) = parts (workers s ! k)" for k r
    using that by (simp add: worker_step_def deferred_step_def)
  have g: "worker_step cfg r k s = Some (s\<lparr>crashed := True\<rparr>)"
    if "k < length (workers s)" "code (workers s ! k) = Panic"
      "released (workers s ! k) = parts (workers s ! k)" for k r
    using that by (simp add: worker_step_def deferred_step_def)
  have h: "\<exists>s'. exec cfg
                    (replicate (parts (workers s ! k) - released (workers s ! k)) (Worker k r)) s =
                    Some s' \<and>
                  released (workers s' ! k) = parts (workers s ! k) \<and>
                  swg_current s' + (parts (workers s ! k) - released (workers s ! k)) =
                    swg_current s \<and>
                  trace s' = trace s @
                    replicate (parts (workers s ! k) - released (workers s ! k)) (Released k)"
    if "k < length (workers s)" "code (workers s ! k) = Return \<or> code (workers s ! k) = Panic"
      "\<not> crashed s" for k r
    using deferred_loop_runs [OF assms that(3,1,2) refl, of r] by auto
  show ?thesis
    using a b c d e f g h by blast
qed

theorem limiter_units_bounded_and_released_witness:
  "reachable default_config empty_pools (after big_object_returned) \<and>
   length (workers (after big_object_returned)) = 1 \<and>
   code (workers (after big_object_returned) ! 0) = Return \<and>
   \<not> crashed (after big_object_returned) \<and>
   parts (workers (after big_object_returned) ! 0) = 8 \<and>
   released (workers (after big_object_returned) ! 0) = 0 \<and>
   active_units (after big_object_returned) = 8 \<and>
   swg_current (after big_object_returned) = 8 \<and>
   map_option swg_current (worker_step default_config no_replies 0 (after big_object_returned)) =
     Some 7 \<and>
   exec default_config
     [Worker 0 no_replies, Worker 0 no_replies, Worker 0 no_replies, Worker 0 no_replies,
      Worker 0 no_replies, Worker 0 no_replies, Worker 0 no_replies, Worker 0 no_replies]
     (after big_object_returned) = Some (after big_object_run) \<and>
   reachable default_config empty_pools (after big_object_run) \<and>
   released (workers (after big_object_run) ! 0) = 8 \<and>
   swg_current (after big_object_run) = 0 \<and> swg_wg (after big_object_run) = 0 \<and>
   active_units (after big_object_run) = 0 \<and>
   count_list (trace (after big_object_run)) (Released 0) = 8 \<and>
   worker_step default_config no_replies 0 (after big_object_run) = None \<and>
   reachable tiny_blocks empty_pools panicked \<and>
   code (workers panicked ! 0) = Panic \<and> \<not> crashed panicked \<and>
   worker_step tiny_blocks no_replies 0 panicked = Some (panicked\<lparr>crashed := True\<rparr>) \<and>
   parts (workers panicked ! 0) = 1 \<and>
   count_list (trace panicked) (Released 0) = 1 \<and>
   active_units panicked = 0"
proof -
  have e1: "exec default_config big_object_returned (initial empty_pools) \<noteq> None"
    by (simp add: big_object_returned_def big_object_admitted_def big_object_def model_defs)
  have r1: "reachable default_config empty_pools (after big_object_returned)"
    using e1 by (rule reachable_after)
  have e2: "exec default_config big_object_run (initial empty_pools) \<noteq> None"
    by (simp add: big_object_run_def big_object_returned_def big_object_admitted_def
          big_object_def model_defs)
  have r2: "reachable default_config empty_pools (after big_object_run)"
    using e2 by (rule reachable_after)
  have first: "length (workers (after big_object_returned)) = 1 \<and>
     code (workers (after big_object_returned) ! 0) = Return \<and>
     \<not> crashed (after big_object_returned) \<and>
     parts (workers (after big_object_returned) ! 0) = 8 \<and>
     released (workers (after big_object_returned) ! 0) = 0 \<and>
     active_units (after big_object_returned) = 8 \<and>
     swg_current (after big_object_returned) = 8 \<and>
     map_option swg_current (worker_step default_config no_replies 0 (after big_object_returned)) =
       Some 7"
    using limiter_units_bounded_and_released [OF r1]
    by (simp add: after_def big_object_returned_def big_object_admitted_def big_object_def
          model_defs)
  have loop: "exec default_config
     [Worker 0 no_replies, Worker 0 no_replies, Worker 0 no_replies, Worker 0 no_replies,
      Worker 0 no_replies, Worker 0 no_replies, Worker 0 no_replies, Worker 0 no_replies]
     (after big_object_returned) = Some (after big_object_run)"
    by (simp add: after_def big_object_run_def big_object_returned_def big_object_admitted_def
          big_object_def model_defs)
  have second: "released (workers (after big_object_run) ! 0) = 8 \<and>
     swg_current (after big_object_run) = 0 \<and> swg_wg (after big_object_run) = 0 \<and>
     active_units (after big_object_run) = 0 \<and>
     count_list (trace (after big_object_run)) (Released 0) = 8 \<and>
     worker_step default_config no_replies 0 (after big_object_run) = None"
    using limiter_units_bounded_and_released [OF r2]
    by (simp add: after_def big_object_run_def big_object_returned_def big_object_admitted_def
          big_object_def model_defs)
  have third: "code (workers panicked ! 0) = Panic \<and> \<not> crashed panicked \<and>
     worker_step tiny_blocks no_replies 0 panicked = Some (panicked\<lparr>crashed := True\<rparr>) \<and>
     parts (workers panicked ! 0) = 1 \<and>
     count_list (trace panicked) (Released 0) = 1 \<and>
     active_units panicked = 0"
    using limiter_units_bounded_and_released [OF reachable_panicked]
    by (simp add: panicked_defs model_defs)
  show ?thesis
    using r1 r2 reachable_panicked first loop second third by blast
qed

text \<open>
  C3 fails on the code. With the context cancelled, the loop still receives the
  descriptor, reserves its slot and starts its goroutine: the \<^verbatim>\<open>break\<close> in the
  \<^verbatim>\<open>ctx.Done()\<close> case leaves the \<^verbatim>\<open>select\<close>, not the loop.
\<close>

theorem descriptor_admitted_after_cancellation:
  "exec default_config admitted_after_cancel (initial empty_pools) \<noteq> None \<and>
   cancelled (after admitted_after_cancel) \<and>
   trace (after admitted_after_cancel) =
     [CtxCancelled, Consumed empty_object, Reserved, Dispatched 0] \<and>
   length (workers (after admitted_after_cancel)) = 1"
  by (simp add: after_def admitted_after_cancel_def empty_object_def model_defs)



text \<open>
  C5 as stated fails: the 1 MiB object exceeds the threshold of 96 KiB, and its goroutine
  calls \<^verbatim>\<open>downloadObjectInParts\<close> with one part, after one reservation.
\<close>

theorem one_mib_fetched_in_one_part:
  "maxMemObject default_config * 1024 <s Size one_mib_object \<and>
   trace (after one_mib_read) =
     [Consumed one_mib_object, Reserved, Dispatched 0, ReadInParts 0 ''k'' 1048576 1]"
  by (simp add: after_def one_mib_read_def one_mib_object_def model_defs)

text \<open>
  C5, amended. The goroutine of a descriptor of nonzero size above the threshold never
  touches the pools or reads into memory; the first thing it does is one call of
  \<^verbatim>\<open>downloadObjectInParts\<close> for the descriptor's name and size with the descriptor's
  part count, which is 8 above 8 MiB and 1 otherwise; all it does afterwards is send its
  outcome and count; and once its body has returned it has either reported the failure of
  that call or sent a \<open>WorkFile\<close> with the temporary file's path and nil bytes and
  counted it.
\<close>

theorem large_object_fetched_with_part_count:
  assumes "reachable cfg ps s" "k < length (workers s)" "task (workers s ! k) = t"
    and "Size t \<noteq> 0" "maxMemObject cfg * 1024 <s Size t"
  shows "part_count t = (if 8 * 1024 * 1024 <s Size t then 8 else 1) \<and>
     (worker_events k (trace s) = [] \<or>
      (\<exists>rest. worker_events k (trace s) =
           ReadInParts k (Filename t) (Size t) (part_count t) # rest \<and>
         (\<forall>e \<in> set rest. is_outcome e \<or> e = Incremented k))) \<and>
     (code (workers s ! k) = Return \<longrightarrow>
      (\<exists>msg. worker_events k (trace s) =
         [ReadInParts k (Filename t) (Size t) (part_count t),
          SentErr k \<lparr>ev_Size = Size t, ev_Filename = Filename t,
             Err = Error_downloading_to_temporary_file (Filename t) msg\<rparr>]) \<or>
      (\<exists>path. worker_events k (trace s) =
         [ReadInParts k (Filename t) (Size t) (part_count t),
          SentDone k \<lparr>wf_Size = Size t, wf_Filename = Filename t,
             TempFile = path, Bytes = None\<rparr>,
          Incremented k]))"
proof -
  have p: "parts (workers s ! k) = part_count t"
    using reachable_inv_units [OF assms(1)] assms(2,3) by (auto simp: inv_units_def)
  have "\<not> Size t \<le>s maxMemObject cfg * 1024"
    using assms(5) by (simp add: word_sle_eq word_sless_alt)
  then have "download_body (maxMemObject cfg) t (part_count t) = in_parts t (part_count t)"
    using assms(4) by (simp add: download_body_def)
  then have "follows k (in_parts t (part_count t)) (worker_events k (trace s)) (code (workers s ! k))"
    using reachable_follows [OF assms(1,2)] assms(3) p by simp
  from follows_in_parts [OF this]
  have shape: "(worker_events k (trace s) = [] \<and> code (workers s ! k) \<noteq> Return) \<or>
     (\<exists>rest. worker_events k (trace s) =
           ReadInParts k (Filename t) (Size t) (part_count t) # rest \<and>
         (\<forall>e \<in> set rest. is_outcome e \<or> e = Incremented k) \<and>
         (code (workers s ! k) = Return \<longrightarrow>
            (\<exists>msg. rest = [SentErr k \<lparr>ev_Size = Size t, ev_Filename = Filename t,
               Err = Error_downloading_to_temporary_file (Filename t) msg\<rparr>]) \<or>
            (\<exists>path. rest = [SentDone k \<lparr>wf_Size = Size t, wf_Filename = Filename t,
               TempFile = path, Bytes = None\<rparr>, Incremented k])))"
    by (auto simp: in_parts_def)
  have pc: "part_count t = (if 8 * 1024 * 1024 <s Size t then 8 else 1)"
    by (simp add: part_count_def)
  show ?thesis
    using shape pc by blast
qed

theorem large_object_fetched_with_part_count_witness:
  "reachable default_config empty_pools (after one_mib_run) \<and>
   (0::nat) < length (workers (after one_mib_run)) \<and>
   task (workers (after one_mib_run) ! 0) = one_mib_object \<and>
   Size one_mib_object \<noteq> 0 \<and>
   maxMemObject default_config * 1024 <s Size one_mib_object \<and>
   code (workers (after one_mib_run) ! 0) = Return \<and>
   part_count one_mib_object = 1 \<and>
   worker_events 0 (trace (after one_mib_run)) =
     [ReadInParts 0 ''k'' 1048576 1,
      SentDone 0 \<lparr>wf_Size = 1048576, wf_Filename = ''k'', TempFile = ''/tmp/part'',
                   Bytes = None\<rparr>,
      Incremented 0]"
proof -
  have e: "exec default_config one_mib_run (initial empty_pools) \<noteq> None"
    by (simp add: one_mib_run_def one_mib_read_def one_mib_object_def model_defs)
  have r: "reachable default_config empty_pools (after one_mib_run)"
    using e by (rule reachable_after)
  have k: "0 < length (workers (after one_mib_run))"
    and t: "task (workers (after one_mib_run) ! 0) = one_mib_object"
    and z: "Size one_mib_object \<noteq> 0"
    and l: "maxMemObject default_config * 1024 <s Size one_mib_object"
    by (simp_all add: after_def one_mib_run_def one_mib_read_def one_mib_object_def model_defs)
  show ?thesis
    using r k t z l large_object_fetched_with_part_count [OF r k t z l]
    by (simp add: after_def one_mib_run_def one_mib_read_def one_mib_object_def model_defs
          worker_events_def)
qed

text \<open>
  C6. The part count of a descriptor is 1 when its size is at most 8 MiB and 8 when it is
  larger; every started goroutine carries the part count of its descriptor. Between the
  receipt of a descriptor and the start of its goroutine the loop stands in its loop of
  \<^verbatim>\<open>swg.Add()\<close> calls: while fewer than part-count calls are done its step is the next
  call, which takes one slot of the wait group (both counters go up by one) and leaves
  \<open>Reserved\<close>, or blocks when 16 slots are taken; with all part-count calls done, and
  not before, its step starts the goroutine. So the loop's own events are, per started
  goroutine in order, the receipt of the descriptor, exactly part-count reservations and
  then the start, followed by the receipt and the reservations made so far for the
  descriptor being admitted; every reservation in the trace is a slot taken, still taken
  or released since; and the slots taken are those the goroutines hold plus those reserved
  for the descriptor being admitted.
\<close>

theorem part_count_reserved_before_dispatch:
  assumes "reachable cfg ps s"
  shows "(Size t \<le>s 8 * 1024 * 1024 \<longrightarrow> part_count t = 1) \<and>
     (8 * 1024 * 1024 <s Size t \<longrightarrow> part_count t = 8) \<and>
     (\<forall>k < length (workers s). parts (workers s ! k) = part_count (task (workers s ! k))) \<and>
     filter loop_event (trace s) = admissions (workers s) @ admitting (opc s) \<and>
     (\<forall>t' n i. opc s = Adding t' n i \<longrightarrow> n = part_count t' \<and> i \<le> n) \<and>
     swg_current s = units (workers s) + reserving (opc s) \<and>
     swg_wg s = swg_current s \<and> swg_current s \<le> 16 \<and>
     count_list (trace s) Reserved = swg_current s + length (filter is_release (trace s)) \<and>
     (\<forall>t' n i c. opc s = Adding t' n i \<and> i < n \<longrightarrow>
        Downloader_step cfg c s =
          (if swg_current s < 16
           then Some (s\<lparr>opc := Adding t' n (i + 1), swg_current := swg_current s + 1,
                        swg_wg := swg_wg s + 1, trace := trace s @ [Reserved]\<rparr>)
           else None)) \<and>
     (\<forall>t' n c. opc s = Adding t' n n \<longrightarrow>
        reserving (opc s) = part_count t' \<and>
        Downloader_step cfg c s =
          Some (s\<lparr>opc := Select, workers := workers s @ [spawn cfg t' n],
                  trace := trace s @ [Dispatched (length (workers s))]\<rparr>))"
proof -
  have u: "inv_units s" using assms by (rule reachable_inv_units)
  have l: "inv_loop s" using assms by (rule reachable_inv_loop)
  have a: "Size t \<le>s 8 * 1024 * 1024 \<longrightarrow> part_count t = 1"
    by (simp add: part_count_def word_sle_eq word_sless_alt)
  have b: "8 * 1024 * 1024 <s Size t \<longrightarrow> part_count t = 8"
    by (simp add: part_count_def)
  have c: "\<forall>k < length (workers s). parts (workers s ! k) = part_count (task (workers s ! k))"
    using u by (simp add: inv_units_def)
  have d: "filter loop_event (trace s) = admissions (workers s) @ admitting (opc s)"
    using l by (simp add: inv_loop_def)
  have e: "\<forall>t' n i. opc s = Adding t' n i \<longrightarrow> n = part_count t' \<and> i \<le> n"
    using u by (auto simp: inv_units_def)
  have f: "swg_current s = units (workers s) + reserving (opc s) \<and>
     swg_wg s = swg_current s \<and> swg_current s \<le> 16"
    using u by (simp add: inv_units_def active_units_def limit_def)
  have g: "count_list (trace s) Reserved = swg_current s + length (filter is_release (trace s))"
    using reachable_inv_reserved [OF assms] by (simp add: inv_reserved_def)
  have h: "Downloader_step cfg c s =
          (if swg_current s < 16
           then Some (s\<lparr>opc := Adding t' n (i + 1), swg_current := swg_current s + 1,
                        swg_wg := swg_wg s + 1, trace := trace s @ [Reserved]\<rparr>)
           else None)"
    if "opc s = Adding t' n i" "i < n" for t' n i c
    using that by (simp add: Downloader_step_def emit_def limit_def)
  have i: "reserving (opc s) = part_count t' \<and>
        Downloader_step cfg c s =
          Some (s\<lparr>opc := Select, workers := workers s @ [spawn cfg t' n],
                  trace := trace s @ [Dispatched (length (workers s))]\<rparr>)"
    if "opc s = Adding t' n n" for t' n c
    using that e by (simp add: Downloader_step_def emit_def)
  show ?thesis
    using a b c d e f g h i by blast
qed

theorem part_count_reserved_before_dispatch_witness:
  "reachable default_config empty_pools (after big_object_received) \<and>
   opc (after big_object_received) = Adding big_object 8 0 \<and>
   swg_current (after big_object_received) = 0 \<and>
   map_option (\<lambda>s. (opc s, swg_current s, swg_wg s))
     (Downloader_step default_config Task_recv (after big_object_received)) =
     Some (Adding big_object 8 1, 1, 1) \<and>
   reachable default_config empty_pools (after big_object_admitted) \<and>
   Size empty_object \<le>s 8 * 1024 * 1024 \<and> part_count empty_object = 1 \<and>
   8 * 1024 * 1024 <s Size big_object \<and> part_count big_object = 8 \<and>
   length (workers (after big_object_admitted)) = 1 \<and>
   parts (workers (after big_object_admitted) ! 0) = 8 \<and>
   swg_current (after big_object_admitted) = 8 \<and> swg_wg (after big_object_admitted) = 8 \<and>
   count_list (trace (after big_object_admitted)) Reserved = 8 \<and>
   filter loop_event (trace (after big_object_admitted)) =
     [Consumed big_object, Reserved, Reserved, Reserved, Reserved, Reserved, Reserved,
      Reserved, Reserved, Dispatched 0] \<and>
   reachable default_config empty_pools (after saturated_run) \<and>
   opc (after saturated_run) = Adding empty_object 1 0 \<and>
   swg_current (after saturated_run) = 16 \<and>
   Downloader_step default_config Task_recv (after saturated_run) = None"
proof -
  have e0: "exec default_config big_object_received (initial empty_pools) \<noteq> None"
    by (simp add: big_object_received_def big_object_def model_defs)
  have r0: "reachable default_config empty_pools (after big_object_received)"
    using e0 by (rule reachable_after)
  have e: "exec default_config big_object_admitted (initial empty_pools) \<noteq> None"
    by (simp add: big_object_admitted_def big_object_def model_defs)
  have r: "reachable default_config empty_pools (after big_object_admitted)"
    using e by (rule reachable_after)
  have e2: "exec default_config saturated_run (initial empty_pools) \<noteq> None"
    by (simp add: saturated_run_def empty_object_def big_object_def model_defs)
  have r2: "reachable default_config empty_pools (after saturated_run)"
    using e2 by (rule reachable_after)
  have rep: "replicate (numeral m) x = x # replicate (pred_numeral m) x" for m and x :: event
    by (simp add: numeral_eq_Suc)
  have zero: "opc (after big_object_received) = Adding big_object 8 0 \<and>
     swg_current (after big_object_received) = 0 \<and>
     map_option (\<lambda>s. (opc s, swg_current s, swg_wg s))
       (Downloader_step default_config Task_recv (after big_object_received)) =
       Some (Adding big_object 8 1, 1, 1)"
    using part_count_reserved_before_dispatch [OF r0, of big_object]
    by (simp add: after_def big_object_received_def big_object_def model_defs)
  have first: "Size empty_object \<le>s 8 * 1024 * 1024 \<and> part_count empty_object = 1 \<and>
     8 * 1024 * 1024 <s Size big_object \<and> part_count big_object = 8 \<and>
     length (workers (after big_object_admitted)) = 1 \<and>
     parts (workers (after big_object_admitted) ! 0) = 8 \<and>
     swg_current (after big_object_admitted) = 8 \<and> swg_wg (after big_object_admitted) = 8 \<and>
     count_list (trace (after big_object_admitted)) Reserved = 8 \<and>
     filter loop_event (trace (after big_object_admitted)) =
       [Consumed big_object, Reserved, Reserved, Reserved, Reserved, Reserved, Reserved,
        Reserved, Reserved, Dispatched 0]"
    using part_count_reserved_before_dispatch [OF r, of empty_object]
      part_count_reserved_before_dispatch [OF r, of big_object]
    by (simp add: after_def big_object_admitted_def big_object_def empty_object_def model_defs
          units_def admissions_def admission_def rep)
  have second: "opc (after saturated_run) = Adding empty_object 1 0 \<and>
     swg_current (after saturated_run) = 16 \<and>
     Downloader_step default_config Task_recv (after saturated_run) = None"
    using part_count_reserved_before_dispatch [OF r2, of empty_object]
    by (simp add: after_def saturated_run_def empty_object_def big_object_def model_defs)
  show ?thesis
    using r0 r r2 zero first second by blast
qed

text \<open>
  C7. The goroutine of a descriptor of size 0 leaves nothing in the trace but one send on
  \<open>doneCh\<close> of a \<open>WorkFile\<close> with no temporary file and nil bytes, followed by the
  increment of the counter: no read, no pool access, no send on \<open>fileErrCh\<close>; once its
  body has returned it has left both; and it never panics.
\<close>

theorem empty_object_sent_without_read:
  assumes "reachable cfg ps s" "k < length (workers s)" "Size (task (workers s ! k)) = 0"
  shows "(worker_events k (trace s) = [] \<or>
      worker_events k (trace s) =
        [SentDone k \<lparr>wf_Size = 0, wf_Filename = Filename (task (workers s ! k)),
                       TempFile = [], Bytes = None\<rparr>] \<or>
      worker_events k (trace s) =
        [SentDone k \<lparr>wf_Size = 0, wf_Filename = Filename (task (workers s ! k)),
                       TempFile = [], Bytes = None\<rparr>, Incremented k]) \<and>
     (code (workers s ! k) = Return \<longrightarrow>
      worker_events k (trace s) =
        [SentDone k \<lparr>wf_Size = 0, wf_Filename = Filename (task (workers s ! k)),
                       TempFile = [], Bytes = None\<rparr>, Incremented k]) \<and>
     (\<forall>nm. ReadToBuffer k nm \<notin> set (trace s)) \<and>
     (\<forall>nm sz n. ReadInParts k nm sz n \<notin> set (trace s)) \<and>
     (\<forall>ev. SentErr k ev \<notin> set (trace s)) \<and>
     code (workers s ! k) \<noteq> Panic"
proof -
  let ?f = "\<lparr>wf_Size = 0, wf_Filename = Filename (task (workers s ! k)),
              TempFile = [], Bytes = None\<rparr>"
  have "follows k (Send_done ?f (Atomic_add Return)) (worker_events k (trace s))
      (code (workers s ! k))"
    using reachable_follows [OF assms(1,2)] assms(3) by (simp add: download_body_def)
  from follows_empty_object [OF this]
  have shape: "(worker_events k (trace s) = [] \<and>
         code (workers s ! k) = Send_done ?f (Atomic_add Return)) \<or>
      (worker_events k (trace s) = [SentDone k ?f] \<and> code (workers s ! k) = Atomic_add Return) \<or>
      (worker_events k (trace s) = [SentDone k ?f, Incremented k] \<and> code (workers s ! k) = Return)" .
  have a: "worker_events k (trace s) = [] \<or> worker_events k (trace s) = [SentDone k ?f] \<or>
      worker_events k (trace s) = [SentDone k ?f, Incremented k]"
    using shape by blast
  have b: "code (workers s ! k) = Return \<longrightarrow>
      worker_events k (trace s) = [SentDone k ?f, Incremented k]"
    using shape by auto
  have c: "\<forall>nm. ReadToBuffer k nm \<notin> set (trace s)"
    using a worker_events_mem [of "ReadToBuffer k _" "trace s" k] by auto
  have d: "\<forall>nm sz n. ReadInParts k nm sz n \<notin> set (trace s)"
    using a worker_events_mem [of "ReadInParts k _ _ _" "trace s" k] by auto
  have e: "\<forall>ev. SentErr k ev \<notin> set (trace s)"
    using a worker_events_mem [of "SentErr k _" "trace s" k] by auto
  have n: "code (workers s ! k) \<noteq> Panic"
    using shape by auto
  show ?thesis
    using a b c d e n by blast
qed

theorem empty_object_sent_without_read_witness:
  "reachable default_config empty_pools (after empty_object_run) \<and>
   (0::nat) < length (workers (after empty_object_run)) \<and>
   Size (task (workers (after empty_object_run) ! 0)) = 0 \<and>
   code (workers (after empty_object_run) ! 0) = Return \<and>
   worker_events 0 (trace (after empty_object_run)) =
     [SentDone 0 \<lparr>wf_Size = 0, wf_Filename = ''a'', TempFile = [], Bytes = None\<rparr>,
      Incremented 0]"
proof -
  have e: "exec default_config empty_object_run (initial empty_pools) \<noteq> None"
    by (simp add: empty_object_run_def empty_object_def model_defs)
  have r: "reachable default_config empty_pools (after empty_object_run)"
    using e by (rule reachable_after)
  have k: "0 < length (workers (after empty_object_run))"
    and z: "Size (task (workers (after empty_object_run) ! 0)) = 0"
    by (simp_all add: after_def empty_object_run_def empty_object_def model_defs)
  show ?thesis
    using r k z empty_object_sent_without_read [OF r k z]
    by (simp add: after_def empty_object_run_def empty_object_def model_defs worker_events_def)
qed

text \<open>
  C8. A goroutine on the in-memory path (nonzero size, at most the threshold) that takes
  block \<open>mem\<close> from the pool chosen by its size and whose read reports a byte count other
  than the declared size takes four steps to the return of its body: the block is taken,
  the read is made, one \<open>ErrorEvent\<close> with the descriptor's size and name and the cause is
  sent on \<open>fileErrCh\<close>, and \<^verbatim>\<open>putMemory\<close> puts the block back; nothing is sent on
  \<open>doneCh\<close> and the counter stays. A read that reports an error ends in the same state
  but for the cause. With pools that keep to their classes the block is back, at full
  length, in the pool it was taken from.
\<close>

theorem in_memory_failure_reported_and_block_returned:
  assumes "reachable cfg ps0 s" "classed cfg ps0" "\<not> crashed s" "k < length (workers s)"
    and "code (workers s ! k) = download_body (maxMemObject cfg) t n"
    and "Size t \<noteq> 0" "Size t \<le>s maxMemObject cfg * 1024"
    and "pool_Get cfg r0 (if Size t \<le>s 32 * 1024 then Pool32 else PoolLarge) (pools s) = (mem, ps)"
  shows "(read_err r1 = None \<and> read_n r1 \<noteq> Size t \<longrightarrow>
        exec cfg [Worker k r0, Worker k r1, Worker k r2, Worker k r3] s =
          Some (failed_in_memory k t mem ps (Short_write (Filename t) (Size t) (read_n r1)) s)) \<and>
     (\<forall>e. read_err r1 = Some e \<longrightarrow>
        exec cfg [Worker k r0, Worker k r1, Worker k r2, Worker k r3] s =
          Some (failed_in_memory k t mem ps (Error_downloading_to_memory (Filename t) e) s)) \<and>
     (Size t \<le>s 32 * 1024 \<longrightarrow>
        bufPool32 (putMemory mem ps) = full_slice mem # bufPool32 ps \<and>
        bufPoolLarge (putMemory mem ps) = bufPoolLarge ps) \<and>
     (\<not> Size t \<le>s 32 * 1024 \<longrightarrow>
        bufPoolLarge (putMemory mem ps) = full_slice mem # bufPoolLarge ps \<and>
        bufPool32 (putMemory mem ps) = bufPool32 ps)"
proof -
  let ?pid = "if Size t \<le>s 32 * 1024 then Pool32 else PoolLarge"
  have b: "code (workers s ! k) = Pool_get ?pid (in_memory t)"
    using assms(5,6,7) by (simp add: download_body_def)
  have short: "exec cfg [Worker k r0, Worker k r1, Worker k r2, Worker k r3] s =
          Some (failed_in_memory k t mem ps (Short_write (Filename t) (Size t) (read_n r1)) s)"
    if "read_err r1 = None" "read_n r1 \<noteq> Size t"
    using that by (intro in_memory_failure_steps [OF assms(3,4) b assms(8)]) simp
  have err: "exec cfg [Worker k r0, Worker k r1, Worker k r2, Worker k r3] s =
          Some (failed_in_memory k t mem ps (Error_downloading_to_memory (Filename t) e) s)"
    if "read_err r1 = Some e" for e
    using that by (intro in_memory_failure_steps [OF assms(3,4) b assms(8)]) simp
  have "classed cfg (pools s)"
    using assms(1,2) by (rule reachable_classed)
  from classed_Get [OF this assms(8)]
  have cls: "Size t \<le>s 32 * 1024 \<longrightarrow> cap mem \<le> 32 * 1024"
    "\<not> Size t \<le>s 32 * 1024 \<longrightarrow> 32 * 1024 < cap mem"
    by (simp_all split: if_splits)
  have put: "(cap mem \<le> 32 * 1024 \<longrightarrow>
        bufPool32 (putMemory mem ps) = full_slice mem # bufPool32 ps \<and>
        bufPoolLarge (putMemory mem ps) = bufPoolLarge ps) \<and>
     (32 * 1024 < cap mem \<longrightarrow>
        bufPoolLarge (putMemory mem ps) = full_slice mem # bufPoolLarge ps \<and>
        bufPool32 (putMemory mem ps) = bufPool32 ps)"
    by (simp add: putMemory_def full_slice_def Let_def)
  show ?thesis
    using short err cls put by blast
qed

theorem in_memory_failure_reported_and_block_returned_witness:
  "reachable default_config empty_pools (after failing_object_started) \<and>
   classed default_config empty_pools \<and>
   \<not> crashed (after failing_object_started) \<and>
   (0::nat) < length (workers (after failing_object_started)) \<and>
   code (workers (after failing_object_started) ! 0) =
     download_body (maxMemObject default_config) failing_object 1 \<and>
   Size failing_object \<noteq> 0 \<and>
   Size failing_object \<le>s maxMemObject default_config * 1024 \<and>
   Size failing_object \<le>s 32 * 1024 \<and>
   pool_Get default_config no_replies Pool32 (pools (after failing_object_started)) =
     (\<lparr>base = 4096, len = 32768, cap = 32768\<rparr>, empty_pools) \<and>
   read_err short_read = None \<and> read_n short_read \<noteq> Size failing_object \<and>
   map_option trace
     (exec default_config
        [Worker 0 no_replies, Worker 0 short_read, Worker 0 no_replies, Worker 0 no_replies]
        (after failing_object_started)) =
     Some [Consumed failing_object, Reserved, Dispatched 0,
           PoolGet 0 \<lparr>base = 4096, len = 32768, cap = 32768\<rparr>, ReadToBuffer 0 ''c'',
           SentErr 0 \<lparr>ev_Size = 500, ev_Filename = ''c'', Err = Short_write ''c'' 500 499\<rparr>,
           PoolPut 0 \<lparr>base = 4096, len = 32768, cap = 32768\<rparr>] \<and>
   bufPool32 (putMemory \<lparr>base = 4096, len = 32768, cap = 32768\<rparr> empty_pools) =
     [\<lparr>base = 4096, len = 32768, cap = 32768\<rparr>]"
proof -
  have e: "exec default_config failing_object_started (initial empty_pools) \<noteq> None"
    by (simp add: failing_object_started_def failing_object_def model_defs)
  have r: "reachable default_config empty_pools (after failing_object_started)"
    using e by (rule reachable_after)
  have c: "classed default_config empty_pools"
    by (simp add: classed_def default_config_def empty_pools_def)
  have n: "\<not> crashed (after failing_object_started)"
    and k: "0 < length (workers (after failing_object_started))"
    and b: "code (workers (after failing_object_started) ! 0) =
              download_body (maxMemObject default_config) failing_object 1"
    by (simp_all add: after_def failing_object_started_def failing_object_def model_defs)
  have z: "Size failing_object \<noteq> 0"
    and l: "Size failing_object \<le>s maxMemObject default_config * 1024"
    by (simp_all add: failing_object_def model_defs)
  have g: "pool_Get default_config no_replies
       (if Size failing_object \<le>s 32 * 1024 then Pool32 else PoolLarge)
       (pools (after failing_object_started)) =
     (\<lparr>base = 4096, len = 32768, cap = 32768\<rparr>, empty_pools)"
    by (simp add: after_def failing_object_started_def failing_object_def model_defs)
  show ?thesis
    using r c n k b z l g
      in_memory_failure_reported_and_block_returned [OF r c n k b z l g, of short_read no_replies no_replies]
    by (simp add: failed_in_memory_def short_read_def failing_object_def after_def
          failing_object_started_def model_defs)
qed

text \<open>
  C9. \<^verbatim>\<open>putMemory\<close> first restores the block to its full capacity and then picks the pool
  by that length, so the pool is decided by the capacity alone, whatever the length of the
  block was: a block of capacity at most 32 KiB goes to \<open>bufPool32\<close> and leaves
  \<open>bufPoolLarge\<close> as it was, a block of larger capacity goes to \<open>bufPoolLarge\<close> and leaves
  \<open>bufPool32\<close> as it was.
\<close>

theorem putMemory_by_capacity:
  "len (full_slice mem) = cap mem \<and> cap (full_slice mem) = cap mem \<and>
   base (full_slice mem) = base mem \<and>
   (cap mem \<le> 32 * 1024 \<longrightarrow>
      bufPool32 (putMemory mem ps) = full_slice mem # bufPool32 ps \<and>
      bufPoolLarge (putMemory mem ps) = bufPoolLarge ps) \<and>
   (32 * 1024 < cap mem \<longrightarrow>
      bufPoolLarge (putMemory mem ps) = full_slice mem # bufPoolLarge ps \<and>
      bufPool32 (putMemory mem ps) = bufPool32 ps)"
  by (simp add: putMemory_def full_slice_def Let_def)

theorem putMemory_by_capacity_witness:
  "cap small_block \<le> 32 * 1024 \<and> len small_block < cap small_block \<and>
   bufPool32 (putMemory small_block empty_pools) = [\<lparr>base = 4096, len = 32768, cap = 32768\<rparr>] \<and>
   bufPoolLarge (putMemory small_block empty_pools) = [] \<and>
   32 * 1024 < cap large_block \<and> len large_block \<le> 32 * 1024 \<and>
   bufPoolLarge (putMemory large_block empty_pools) = [\<lparr>base = 65536, len = 98304, cap = 98304\<rparr>] \<and>
   bufPool32 (putMemory large_block empty_pools) = []"
  using putMemory_by_capacity [of small_block empty_pools]
    putMemory_by_capacity [of large_block empty_pools]
  by (simp add: small_block_def large_block_def empty_pools_def full_slice_def)

text \<open>
  C10. Every started goroutine, that of a descriptor of size 0 included, was given at least
  one slot (exactly one for size 0), keeps all its slots while its body runs, and, when it
  has given one back after its body returned, has already sent its outcome. With all 16
  slots taken, the loop that has received a descriptor and reserved nothing yet cannot
  move. The counter is the number of increments in the trace, and the goroutine of a
  descriptor of size 0 whose body has returned has incremented it exactly once.
\<close>

theorem every_descriptor_holds_a_slot:
  assumes "reachable cfg ps s"
  shows "DownloadedFiles s = of_nat (length (filter is_increment (trace s))) \<and>
     (\<forall>k < length (workers s).
        1 \<le> parts (workers s ! k) \<and>
        (code (workers s ! k) \<noteq> Return \<and> code (workers s ! k) \<noteq> Panic \<longrightarrow>
           released (workers s ! k) = 0) \<and>
        (0 < released (workers s ! k) \<and> code (workers s ! k) = Return \<longrightarrow>
           length (outcomes k (trace s)) = 1) \<and>
        (Size (task (workers s ! k)) = 0 \<longrightarrow>
           parts (workers s ! k) = 1 \<and>
           (code (workers s ! k) = Return \<longrightarrow> count_list (trace s) (Incremented k) = 1))) \<and>
     (\<forall>t n c. opc s = Adding t n 0 \<and> swg_current s = 16 \<longrightarrow> Downloader_step cfg c s = None)"
proof -
  have u: "inv_units s" using assms by (rule reachable_inv_units)
  have r: "inv_release s" using assms by (rule reachable_inv_release)
  have a: "DownloadedFiles s = of_nat (length (filter is_increment (trace s)))"
    using reachable_inv_counter [OF assms] by (simp add: inv_counter_def)
  have pc: "parts (workers s ! k) = part_count (task (workers s ! k))"
    if "k < length (workers s)" for k
    using u that by (auto simp: inv_units_def)
  have b: "1 \<le> parts (workers s ! k)" if "k < length (workers s)" for k
    using pc [OF that] by (simp add: part_count_def)
  have c: "released (workers s ! k) = 0"
    if "k < length (workers s)" "code (workers s ! k) \<noteq> Return" "code (workers s ! k) \<noteq> Panic"
    for k
    using r that by (auto simp: inv_release_def)
  have d: "length (outcomes k (trace s)) = 1"
    if "k < length (workers s)" "code (workers s ! k) = Return" for k
    using returned_sent_outcome [OF assms that] .
  have e: "parts (workers s ! k) = 1"
    if "k < length (workers s)" "Size (task (workers s ! k)) = 0" for k
    using pc [OF that(1)] that(2) by (simp add: part_count_def word_sless_alt)
  have f: "count_list (trace s) (Incremented k) = 1"
    if k: "k < length (workers s)" and z: "Size (task (workers s ! k)) = 0"
      and ret: "code (workers s ! k) = Return" for k
  proof -
    let ?f = "\<lparr>wf_Size = 0, wf_Filename = Filename (task (workers s ! k)),
                TempFile = [], Bytes = None\<rparr>"
    have "follows k (Send_done ?f (Atomic_add Return)) (worker_events k (trace s))
        (code (workers s ! k))"
      using reachable_follows [OF assms k] z by (simp add: download_body_def)
    from follows_empty_object [OF this] ret
    have "worker_events k (trace s) = [SentDone k ?f, Incremented k]" by auto
    then have "count_list (worker_events k (trace s)) (Incremented k) = 1" by simp
    then show ?thesis by (simp add: count_list_worker_events)
  qed
  have g: "Downloader_step cfg c s = None"
    if "opc s = Adding t n 0" "swg_current s = 16" for t n c
  proof -
    have "n = part_count t" using u that(1) by (auto simp: inv_units_def)
    then have "0 < n" by (simp add: part_count_def)
    with that show ?thesis by (simp add: Downloader_step_def limit_def)
  qed
  show ?thesis
    using a b c d e f g by blast
qed

theorem every_descriptor_holds_a_slot_witness:
  "reachable default_config empty_pools (after empty_object_run) \<and>
   (0::nat) < length (workers (after empty_object_run)) \<and>
   Size (task (workers (after empty_object_run) ! 0)) = 0 \<and>
   code (workers (after empty_object_run) ! 0) = Return \<and>
   0 < released (workers (after empty_object_run) ! 0) \<and>
   parts (workers (after empty_object_run) ! 0) = 1 \<and>
   count_list (trace (after empty_object_run)) (Incremented 0) = 1 \<and>
   DownloadedFiles (after empty_object_run) = 1 \<and>
   reachable default_config empty_pools (after saturated_run) \<and>
   opc (after saturated_run) = Adding empty_object 1 0 \<and>
   swg_current (after saturated_run) = 16 \<and>
   Downloader_step default_config Task_recv (after saturated_run) = None \<and>
   Downloader_step default_config Ctx_done (after saturated_run) = None"
proof -
  have e1: "exec default_config empty_object_run (initial empty_pools) \<noteq> None"
    by (simp add: empty_object_run_def empty_object_def model_defs)
  have r1: "reachable default_config empty_pools (after empty_object_run)"
    using e1 by (rule reachable_after)
  have e2: "exec default_config saturated_run (initial empty_pools) \<noteq> None"
    by (simp add: saturated_run_def empty_object_def big_object_def model_defs)
  have r2: "reachable default_config empty_pools (after saturated_run)"
    using e2 by (rule reachable_after)
  have o: "opc (after saturated_run) = Adding empty_object 1 0"
    and c: "swg_current (after saturated_run) = 16"
    by (simp_all add: after_def saturated_run_def empty_object_def big_object_def model_defs)
  have first: "(0::nat) < length (workers (after empty_object_run)) \<and>
     Size (task (workers (after empty_object_run) ! 0)) = 0 \<and>
     code (workers (after empty_object_run) ! 0) = Return \<and>
     0 < released (workers (after empty_object_run) ! 0) \<and>
     parts (workers (after empty_object_run) ! 0) = 1 \<and>
     count_list (trace (after empty_object_run)) (Incremented 0) = 1 \<and>
     DownloadedFiles (after empty_object_run) = 1"
    using every_descriptor_holds_a_slot [OF r1]
    by (simp add: after_def empty_object_run_def empty_object_def model_defs)
  have second: "Downloader_step default_config Task_recv (after saturated_run) = None \<and>
     Downloader_step default_config Ctx_done (after saturated_run) = None"
    using every_descriptor_holds_a_slot [OF r2] o c by blast
  show ?thesis
    using r1 r2 o c first second by blast
qed

end
